theory Spec2Isabelle
  imports Main "HOL-Library.Monad_Syntax" "HOL-Library.Sublist"
begin

chapter \<open>A terminal coding agent: diff engine, edit tool and agent loop\<close>

text \<open>
  The repository holds the agent twice: the single-file program (package \<open>main\<close>, built by
  the Makefile as \<open>cmd/original\<close>) and the modular one (\<open>pkg/agent\<close>, \<open>pkg/tools\<close>).
  Definitions taken from the modular program keep the source's names; those taken from
  the single-file program carry the suffix \<open>_original\<close>. A loop of the source is a
  recursive function named after what the loop does.

  Conventions of the embedding.
  \<^item> Go's \<open>int\<close> is modelled by \<open>int\<close>: every index below is bounded by the length of a
    slice plus one, so no arithmetic wraps.
  \<^item> A Go \<open>string\<close> is a \<open>string\<close> (a list of bytes).
  \<^item> Indexing a slice out of range panics in Go. A function that can panic returns an
    \<open>option\<close>, and \<open>None\<close> is the panic.
  \<^item> A Go result \<open>(string, error)\<close> is a sum: \<open>Inl\<close> carries the error's message,
    \<open>Inr\<close> the result.
\<close>

section \<open>Definitions\<close>

subsection \<open>Slices\<close>

text \<open>\<open>xs[i]\<close> on a Go slice: the element, or a panic when \<open>i\<close> is out of range.\<close>

definition go_index :: "'a list \<Rightarrow> int \<Rightarrow> 'a option" where
  "go_index xs i = (if 0 \<le> i \<and> i < int (length xs) then Some (xs ! nat i) else None)"

subsection \<open>The diff engine (\<open>pkg/tools\<close>)\<close>

text \<open>
  \<open>longestCommonSubsequence\<close> of \<open>pkg/tools\<close>, by dynamic programming, and the walk
  of \<open>GenerateDiff\<close> over its result. (The single-file program has a matcher of its own
  under the same name; it is not modelled here.)

  \<open>commonLine\<close>: a line that appears in both the original and the modified code.
\<close>

record commonLine =
  originalIndex :: int
  modifiedIndex :: int

text \<open>
  The table \<open>dp\<close> of \<open>longestCommonSubsequence\<close>: \<open>m + 1\<close> rows made by \<open>make\<close>, each
  of \<open>n + 1\<close> zeros. Reads and writes \<open>dp[i][j]\<close> are checked like every slice access.
\<close>

type_synonym table = "int list list"

definition make_table :: "int \<Rightarrow> int \<Rightarrow> table" where
  "make_table m n = replicate (nat (m + 1)) (replicate (nat (n + 1)) 0)"

definition dp_get :: "table \<Rightarrow> int \<Rightarrow> int \<Rightarrow> int option" where
  "dp_get dp i j = do { row \<leftarrow> go_index dp i; go_index row j }"

definition dp_set :: "table \<Rightarrow> int \<Rightarrow> int \<Rightarrow> int \<Rightarrow> table option" where
  "dp_set dp i j v = do {
     row \<leftarrow> go_index dp i;
     _ \<leftarrow> go_index row j;
     Some (dp[nat i := row[nat j := v]])
   }"

text \<open>
  The inner loop \<open>for j := 1; j <= n; j++\<close> of the table fill, for a fixed row \<open>i\<close>,
  started at \<open>j\<close>; \<open>ol\<close> and \<open>ml\<close> are \<open>originalLines\<close> and \<open>modifiedLines\<close>.
\<close>

function fill_row :: "string list \<Rightarrow> string list \<Rightarrow> int \<Rightarrow> int \<Rightarrow> table \<Rightarrow> table option" where
  "fill_row ol ml i j dp =
     (if j \<le> int (length ml) then do {
        a \<leftarrow> go_index ol (i - 1);
        b \<leftarrow> go_index ml (j - 1);
        v \<leftarrow> (if a = b then do { d \<leftarrow> dp_get dp (i - 1) (j - 1); Some (d + 1) }
              else do { u \<leftarrow> dp_get dp (i - 1) j; l \<leftarrow> dp_get dp i (j - 1); Some (max u l) });
        dp' \<leftarrow> dp_set dp i j v;
        fill_row ol ml i (j + 1) dp'
      } else Some dp)"
  by pat_completeness auto
termination
  by (relation "measure (\<lambda>(ol, ml, i, j, dp). nat (int (length ml) + 1 - j))") auto

text \<open>The outer loop \<open>for i := 1; i <= m; i++\<close>, started at \<open>i\<close>.\<close>

function fill_table :: "string list \<Rightarrow> string list \<Rightarrow> int \<Rightarrow> table \<Rightarrow> table option" where
  "fill_table ol ml i dp =
     (if i \<le> int (length ol) then do {
        dp' \<leftarrow> fill_row ol ml i 1 dp;
        fill_table ol ml (i + 1) dp'
      } else Some dp)"
  by pat_completeness auto
termination
  by (relation "measure (\<lambda>(ol, ml, i, dp). nat (int (length ol) + 1 - i))") auto

text \<open>
  The backtracking loop \<open>for i > 0 && j > 0\<close>. The source prepends each entry to
  \<open>result\<close>; the second comparison is evaluated only when the lines differ.
\<close>

function backtrack :: "string list \<Rightarrow> string list \<Rightarrow> table \<Rightarrow> int \<Rightarrow> int \<Rightarrow> commonLine list \<Rightarrow> commonLine list option" where
  "backtrack ol ml dp i j result =
     (if i > 0 \<and> j > 0 then do {
        a \<leftarrow> go_index ol (i - 1);
        b \<leftarrow> go_index ml (j - 1);
        if a = b then
          backtrack ol ml dp (i - 1) (j - 1) (\<lparr>originalIndex = i - 1, modifiedIndex = j - 1\<rparr> # result)
        else do {
          u \<leftarrow> dp_get dp (i - 1) j;
          l \<leftarrow> dp_get dp i (j - 1);
          if u > l then backtrack ol ml dp (i - 1) j result
          else backtrack ol ml dp i (j - 1) result
        }
      } else Some result)"
  by pat_completeness auto
termination
  by (relation "measure (\<lambda>(ol, ml, dp, i, j, result). nat i + nat j)") auto

definition longestCommonSubsequence :: "string list \<Rightarrow> string list \<Rightarrow> commonLine list option" where
  "longestCommonSubsequence ol ml =
     (let m = int (length ol); n = int (length ml) in do {
        dp \<leftarrow> fill_table ol ml 1 (make_table m n);
        backtrack ol ml dp m n []
      })"

text \<open>
  The rendering writes one formatted line per step to a \<open>strings.Builder\<close>. The model
  keeps the lines tagged, in output order, and formats them afterwards
  (\<open>format_line\<close>): the builder only concatenates.
\<close>

datatype diff_line = Deleted string | Added string | Unchanged string

text \<open>
  The loops \<open>for i < bound { write(tag ls[i]); i++ }\<close>: the deletions and the additions
  before a common line, and the remaining ones after the last.
\<close>

function emit_lines :: "(string \<Rightarrow> diff_line) \<Rightarrow> string list \<Rightarrow> int \<Rightarrow> int \<Rightarrow> diff_line list \<Rightarrow> (int \<times> diff_line list) option" where
  "emit_lines tag ls i bound out =
     (if i < bound then do {
        l \<leftarrow> go_index ls i;
        emit_lines tag ls (i + 1) bound (out @ [tag l])
      } else Some (i, out))"
  by pat_completeness auto
termination
  by (relation "measure (\<lambda>(tag, ls, i, bound, out). nat (bound - i))") auto

text \<open>The loop \<open>for k := 0; k < len(lcs); k++\<close> over the common lines.\<close>

fun diff_walk :: "string list \<Rightarrow> string list \<Rightarrow> commonLine list \<Rightarrow> int \<Rightarrow> int \<Rightarrow> diff_line list \<Rightarrow> (int \<times> int \<times> diff_line list) option" where
  "diff_walk ol ml [] i j out = Some (i, j, out)"
| "diff_walk ol ml (c # lcs) i j out = do {
     (i1, out1) \<leftarrow> emit_lines Deleted ol i (originalIndex c) out;
     (j1, out2) \<leftarrow> emit_lines Added ml j (modifiedIndex c) out1;
     l \<leftarrow> go_index ol i1;
     diff_walk ol ml lcs (i1 + 1) (j1 + 1) (out2 @ [Unchanged l])
   }"

text \<open>The whole walk of \<open>GenerateDiff\<close> (and, word for word, of \<open>EditFile\<close>).\<close>

definition render_diff :: "string list \<Rightarrow> string list \<Rightarrow> commonLine list \<Rightarrow> diff_line list option" where
  "render_diff ol ml lcs = do {
     (i, j, out) \<leftarrow> diff_walk ol ml lcs 0 0 [];
     (i', out') \<leftarrow> emit_lines Deleted ol i (int (length ol)) out;
     (j', out'') \<leftarrow> emit_lines Added ml j (int (length ml)) out';
     Some out''
   }"

definition esc :: string where
  "esc = [CHR 0x1B]"

definition newline :: string where
  "newline = [CHR 0x0A]"

fun format_line :: "diff_line \<Rightarrow> string" where
  "format_line (Deleted l) = esc @ ''[31m- '' @ l @ esc @ ''[0m'' @ newline"
| "format_line (Added l) = esc @ ''[32m+ '' @ l @ esc @ ''[0m'' @ newline"
| "format_line (Unchanged l) = esc @ ''[90m  '' @ l @ esc @ ''[0m'' @ newline"

text \<open>\<open>strings.Split(s, "\n")\<close> of the Go library: the pieces between the newlines.\<close>

fun strings_Split :: "string \<Rightarrow> string list" where
  "strings_Split [] = [[]]"
| "strings_Split (c # cs) =
     (if c = CHR 0x0A then [] # strings_Split cs
      else (case strings_Split cs of [] \<Rightarrow> [[c]] | l # ls \<Rightarrow> (c # l) # ls))"

record GenerateDiffInput =
  OriginalCode :: string
  ModifiedCode :: string

text \<open>
  The tool's argument is raw JSON. What \<open>json.Unmarshal\<close> makes of it is the model's
  input: \<open>Inl\<close> its error, \<open>Inr\<close> the decoded struct.
\<close>

definition GenerateDiff :: "string + GenerateDiffInput \<Rightarrow> (string + string) option" where
  "GenerateDiff input =
     (case input of
        Inl err \<Rightarrow> Some (Inl err)
      | Inr generateDiffInput \<Rightarrow>
          if OriginalCode generateDiffInput = ModifiedCode generateDiffInput
          then Some (Inr ''No differences found. The original and modified code are identical.'')
          else do {
            let originalLines = strings_Split (OriginalCode generateDiffInput);
            let modifiedLines = strings_Split (ModifiedCode generateDiffInput);
            lcs \<leftarrow> longestCommonSubsequence originalLines modifiedLines;
            out \<leftarrow> render_diff originalLines modifiedLines lcs;
            Some (Inr (''Diff:'' @ newline @ concat (map format_line out)))
          })"

text \<open>
  Applying a rendering: the lines kept (unchanged and added) give the modified text,
  the lines consumed (unchanged and deleted) the original one.
\<close>

fun kept_lines :: "diff_line list \<Rightarrow> string list" where
  "kept_lines [] = []"
| "kept_lines (Deleted l # ds) = kept_lines ds"
| "kept_lines (Added l # ds) = l # kept_lines ds"
| "kept_lines (Unchanged l # ds) = l # kept_lines ds"

fun source_lines :: "diff_line list \<Rightarrow> string list" where
  "source_lines [] = []"
| "source_lines (Deleted l # ds) = l # source_lines ds"
| "source_lines (Added l # ds) = source_lines ds"
| "source_lines (Unchanged l # ds) = l # source_lines ds"

text \<open>
  Invariants used in the proofs: an alignment whose entries start at or after
  \<open>(i, j)\<close>, lie inside both sequences, pair equal lines and increase strictly in both
  coordinates; and a table of the dimensions \<open>make\<close> gave it.
\<close>

fun aligned :: "string list \<Rightarrow> string list \<Rightarrow> int \<Rightarrow> int \<Rightarrow> commonLine list \<Rightarrow> bool" where
  "aligned ol ml i j [] = True"
| "aligned ol ml i j (c # cs) =
     (i \<le> originalIndex c \<and> originalIndex c < int (length ol) \<and>
      j \<le> modifiedIndex c \<and> modifiedIndex c < int (length ml) \<and>
      ol ! nat (originalIndex c) = ml ! nat (modifiedIndex c) \<and>
      aligned ol ml (originalIndex c + 1) (modifiedIndex c + 1) cs)"

definition table_ok :: "int \<Rightarrow> int \<Rightarrow> table \<Rightarrow> bool" where
  "table_ok m n dp = (int (length dp) = m + 1 \<and> list_all (\<lambda>r. int (length r) = n + 1) dp)"

declare fill_row.simps [simp del] fill_table.simps [simp del] backtrack.simps [simp del]
  emit_lines.simps [simp del]

subsection \<open>The Go library: \<open>utf8\<close> and \<open>strings\<close>\<close>

text \<open>
  The width that \<open>utf8.DecodeRuneInString\<close> returns: the length of the UTF-8 sequence
  at the head of the string, and 1 for a byte that starts no valid sequence.
  \<open>decode_width sz lo hi\<close> is the part of the decoder after the table lookup on the
  first byte: \<open>sz\<close> is the sequence's size and \<open>lo..hi\<close> the range accepted for the
  second byte.
\<close>

definition continuation :: "nat \<Rightarrow> bool" where
  "continuation b = (0x80 \<le> b \<and> b \<le> 0xBF)"

definition decode_width :: "nat \<Rightarrow> nat \<Rightarrow> nat \<Rightarrow> string \<Rightarrow> nat" where
  "decode_width sz lo hi s =
     (if length s < sz then 1
      else if of_char (s ! 1) < lo \<or> hi < of_char (s ! 1) then 1
      else if sz \<le> 2 then 2
      else if \<not> continuation (of_char (s ! 2)) then 1
      else if sz \<le> 3 then 3
      else if \<not> continuation (of_char (s ! 3)) then 1
      else 4)"

definition rune_width :: "string \<Rightarrow> nat" where
  "rune_width s =
     (case s of
        [] \<Rightarrow> 0
      | c # _ \<Rightarrow>
          let s0 = of_char c :: nat in
          if s0 < 0xC2 then 1
          else if s0 < 0xE0 then decode_width 2 0x80 0xBF s
          else if s0 = 0xE0 then decode_width 3 0xA0 0xBF s
          else if s0 = 0xED then decode_width 3 0x80 0x9F s
          else if s0 < 0xF0 then decode_width 3 0x80 0xBF s
          else if s0 = 0xF0 then decode_width 4 0x90 0xBF s
          else if s0 < 0xF4 then decode_width 4 0x80 0xBF s
          else if s0 = 0xF4 then decode_width 4 0x80 0x8F s
          else 1)"

lemma decode_width_cases:
  "2 \<le> sz \<Longrightarrow> sz \<le> 4 \<Longrightarrow>
   decode_width sz lo hi s = 1 \<or> (decode_width sz lo hi s = sz \<and> sz \<le> length s)"
  unfolding decode_width_def by (cases "length s < sz") auto

lemma decode_width_bounds:
  assumes "2 \<le> sz" "sz \<le> 4" "s \<noteq> []"
  shows "1 \<le> decode_width sz lo hi s \<and> decode_width sz lo hi s \<le> length s"
proof -
  from assms(3) have "1 \<le> length s" by (cases s) simp_all
  with decode_width_cases[OF assms(1,2), of lo hi s] assms(1) show ?thesis by auto
qed

lemma rune_width_bounds: "s \<noteq> [] \<Longrightarrow> 1 \<le> rune_width s \<and> rune_width s \<le> length s"
  using decode_width_bounds[of 2 s] decode_width_bounds[of 3 s] decode_width_bounds[of 4 s]
  by (cases s) (simp_all add: rune_width_def Let_def)

text \<open>The characters of a string, as Go counts them: its UTF-8 sequences, in order.\<close>

function runes :: "string \<Rightarrow> string list" where
  "runes s = (if s = [] then [] else take (rune_width s) s # runes (drop (rune_width s) s))"
  by pat_completeness auto
termination
proof (relation "measure length")
  fix s :: string
  assume "s \<noteq> []"
  then show "(drop (rune_width s) s, s) \<in> measure length"
    using rune_width_bounds[of s] by (cases s) auto
qed simp

text \<open>\<open>strings.Index(s, substr)\<close>: the index of the first instance of \<open>substr\<close> in \<open>s\<close>.\<close>

fun strings_Index :: "string \<Rightarrow> string \<Rightarrow> nat option" where
  "strings_Index [] substr = (if substr = [] then Some 0 else None)"
| "strings_Index (c # cs) substr =
     (if prefix substr (c # cs) then Some 0 else map_option Suc (strings_Index cs substr))"

lemma strings_Index_bound: "strings_Index s substr = Some j \<Longrightarrow> j + length substr \<le> length s"
proof (induction s arbitrary: j)
  case Nil
  then show ?case by (simp split: if_splits)
next
  case (Cons c cs)
  then show ?case by (auto simp: prefix_length_le split: if_splits dest: prefix_length_le)
qed

text \<open>
  \<open>strings.Replace(s, old, new, -1)\<close>. With \<open>old\<close> empty the library matches at the
  beginning of the string and after each UTF-8 sequence: \<open>replace_empty\<close> is its loop
  after the first replacement. Otherwise it replaces the non-overlapping instances of
  \<open>old\<close> from left to right: \<open>replace_all\<close>.
\<close>

function replace_empty :: "string \<Rightarrow> string \<Rightarrow> string" where
  "replace_empty s new =
     (if s = [] then []
      else take (rune_width s) s @ new @ replace_empty (drop (rune_width s) s) new)"
  by pat_completeness auto
termination
proof (relation "measure (\<lambda>(s, new). length s)")
  fix s new :: string
  assume "s \<noteq> []"
  then show "((drop (rune_width s) s, new), (s, new)) \<in> measure (\<lambda>(s, new). length s)"
    using rune_width_bounds[of s] by (cases s) auto
qed simp

function replace_all :: "string \<Rightarrow> string \<Rightarrow> string \<Rightarrow> string" where
  "replace_all s old new =
     (if old = [] then s
      else (case strings_Index s old of
              None \<Rightarrow> s
            | Some j \<Rightarrow> take j s @ new @ replace_all (drop (j + length old) s) old new))"
  by pat_completeness auto
termination
proof (relation "measure (\<lambda>(s, old, new). length s)")
  fix s old new :: string and j
  assume "old \<noteq> []" "strings_Index s old = Some j"
  then show "((drop (j + length old) s, old, new), (s, old, new)) \<in> measure (\<lambda>(s, old, new). length s)"
    using strings_Index_bound[of s old j] by (cases old) auto
qed simp

definition strings_Replace :: "string \<Rightarrow> string \<Rightarrow> string \<Rightarrow> string" where
  "strings_Replace s old new =
     (if old = new then s
      else if old = [] then new @ replace_empty s new
      else replace_all s old new)"

subsection \<open>The edit tool (\<open>pkg/tools\<close>)\<close>

text \<open>
  The operating system is a parameter of the tool: the calls \<open>os.ReadFile\<close>,
  \<open>os.MkdirAll\<close> and \<open>os.WriteFile\<close> act on a state \<open>'fs\<close> and may fail, and
  \<open>filepath.Dir\<close> is a function of the path. An error of the system carries the answer
  of \<open>os.IsNotExist\<close> and its message.
\<close>

datatype os_error = OsError bool string

fun IsNotExist :: "os_error \<Rightarrow> bool" where
  "IsNotExist (OsError b msg) = b"

fun Error :: "os_error \<Rightarrow> string" where
  "Error (OsError b msg) = msg"

record 'fs os_calls =
  os_ReadFile :: "string \<Rightarrow> 'fs \<Rightarrow> os_error + string"
  os_MkdirAll :: "string \<Rightarrow> nat \<Rightarrow> 'fs \<Rightarrow> os_error option \<times> 'fs"
  os_WriteFile :: "string \<Rightarrow> string \<Rightarrow> nat \<Rightarrow> 'fs \<Rightarrow> os_error option \<times> 'fs"
  filepath_Dir :: "string \<Rightarrow> string"

record EditFileInput =
  Path :: string
  OldStr :: string
  NewStr :: string

text \<open>The permission modes \<open>0644\<close> and \<open>0755\<close> of the source (octal).\<close>

definition mode_0644 :: nat where
  "mode_0644 = 420"

definition mode_0755 :: nat where
  "mode_0755 = 493"

text \<open>The lines of a new file, all additions; an empty line is written without the blank.\<close>

fun format_new_line :: "string \<Rightarrow> string" where
  "format_new_line line =
     (if line = [] then esc @ ''[32m+'' @ esc @ ''[0m'' @ newline
      else esc @ ''[32m+ '' @ line @ esc @ ''[0m'' @ newline)"

text \<open>The branch of \<open>EditFile\<close> that creates a file: \<open>os.ReadFile\<close> found none and \<open>old_str\<close> is empty.\<close>

definition create_file :: "'fs os_calls \<Rightarrow> EditFileInput \<Rightarrow> 'fs \<Rightarrow> (string + string) \<times> 'fs" where
  "create_file os editFileInput fs =
     (let dir = filepath_Dir os (Path editFileInput);
          (mkdir_err, fs1) = (if dir \<noteq> ''.'' then os_MkdirAll os dir mode_0755 fs else (None, fs))
      in case mkdir_err of
           Some err \<Rightarrow> (Inl (''failed to create directory: '' @ Error err), fs1)
         | None \<Rightarrow>
             let diffResult = ''Creating new file with content:'' @ newline @
                   concat (map format_new_line (strings_Split (NewStr editFileInput)))
             in (case os_WriteFile os (Path editFileInput) (NewStr editFileInput) mode_0644 fs1 of
                   (Some err, fs2) \<Rightarrow> (Inl (''failed to create file: '' @ Error err), fs2)
                 | (None, fs2) \<Rightarrow>
                     (Inr (''Successfully created file '' @ Path editFileInput @ newline @ newline @ diffResult), fs2)))"

text \<open>
  \<open>EditFile\<close>. The result is the tool's \<open>(string, error)\<close> and the state of the file
  system after the call; \<open>None\<close> is a panic of the rendering walk.
\<close>

definition EditFile :: "'fs os_calls \<Rightarrow> string + EditFileInput \<Rightarrow> 'fs \<Rightarrow> ((string + string) \<times> 'fs) option" where
  "EditFile os input fs =
     (case input of
        Inl err \<Rightarrow> Some (Inl err, fs)
      | Inr editFileInput \<Rightarrow>
          if Path editFileInput = [] \<or> OldStr editFileInput = NewStr editFileInput
          then Some (Inl ''invalid input parameters'', fs)
          else (case os_ReadFile os (Path editFileInput) fs of
                  Inl err \<Rightarrow>
                    if IsNotExist err \<and> OldStr editFileInput = []
                    then Some (create_file os editFileInput fs)
                    else Some (Inl (Error err), fs)
                | Inr content \<Rightarrow>
                    let oldContent = content;
                        newContent = strings_Replace oldContent (OldStr editFileInput) (NewStr editFileInput)
                    in if oldContent = newContent \<and> OldStr editFileInput \<noteq> []
                       then Some (Inl ''old_str not found in file'', fs)
                       else do {
                         let originalLines = strings_Split oldContent;
                         let modifiedLines = strings_Split newContent;
                         lcs \<leftarrow> longestCommonSubsequence originalLines modifiedLines;
                         out \<leftarrow> render_diff originalLines modifiedLines lcs;
                         let diffResult = ''Changes to be applied:'' @ newline @ concat (map format_line out);
                         (case os_WriteFile os (Path editFileInput) newContent mode_0644 fs of
                            (Some err, fs') \<Rightarrow> Some (Inl (Error err), fs')
                          | (None, fs') \<Rightarrow>
                              Some (Inr (''File updated successfully.'' @ newline @ newline @ diffResult), fs'))
                       }))"

text \<open>
  A file system in memory, to run the tool on concrete inputs: an association list from
  paths to contents, in one flat directory; its calls never fail but for a missing file.
\<close>

type_synonym mem_fs = "(string \<times> string) list"

definition mem_os :: "mem_fs os_calls" where
  "mem_os = \<lparr>
     os_ReadFile = (\<lambda>path fs. case map_of fs path of
                                None \<Rightarrow> Inl (OsError True (''open '' @ path @ '': no such file or directory''))
                              | Some content \<Rightarrow> Inr content),
     os_MkdirAll = (\<lambda>path perm fs. (None, fs)),
     os_WriteFile = (\<lambda>path content perm fs. (None, (path, content) # filter (\<lambda>(p, c). p \<noteq> path) fs)),
     filepath_Dir = (\<lambda>path. ''.'')
   \<rparr>"

declare runes.simps [simp del] replace_empty.simps [simp del] replace_all.simps [simp del]

subsection \<open>Conversations, tools and what a run can be seen to do\<close>

datatype role = User | Assistant

text \<open>
  A content block: a text, a tool use (identifier, tool name, raw input) or a tool result
  (the identifier of the tool use, the content, the error flag).
\<close>

datatype ContentBlock =
    TextBlock string
  | ToolUseBlock string string string
  | ToolResultBlock string string bool

record MessageParam =
  Role :: role
  Content :: "ContentBlock list"

text \<open>
  A tool of the registry, over a world \<open>'w\<close> that its function reads and changes (files,
  processes). The function returns Go's \<open>(string, error)\<close>, or panics (\<open>None\<close>). The
  description and the input schema are only sent to the model and are left out.
\<close>

record 'w ToolDefinition =
  Name :: string
  Function :: "string \<Rightarrow> 'w \<Rightarrow> ((string + string) \<times> 'w) option"

text \<open>
  The agent. \<open>client\<close> stands for \<open>client.Messages.New\<close>: for the conversation sent it
  gives the number of ticks of the one-second timer that pass before the answer, and
  the answer, Go's \<open>(*Message, error)\<close> (the message is its content, \<open>None\<close> a nil
  pointer). \<open>getUserMessage\<close> reads the lines of the standard input, kept in the state.
\<close>

record 'w Agent =
  client :: "MessageParam list \<Rightarrow> nat \<times> ContentBlock list option \<times> string option"
  tools :: "'w ToolDefinition list"

text \<open>
  What a run does, in order: the texts it prints, a repaint of the progress indicator
  (its text depends on the clock), the calls of \<open>getUserMessage\<close> and of the API (with
  the conversation sent), and the calls of \<open>executeTool\<close> (identifier, name, input).
\<close>

datatype event =
    Print string
  | Progress
  | GetUserMessage
  | MessagesNew "MessageParam list"
  | ExecuteTool string string string

record 'w run_state =
  conversation :: "MessageParam list"
  stdin :: "string list"
  world :: 'w
  trace :: "event list"

text \<open>
  One pass through the body of the loop \<open>for { ... }\<close> of \<open>Run\<close> goes on to the next
  (\<open>Continue\<close>), leaves \<open>Run\<close> with its error or \<open>nil\<close> (\<open>Returned\<close>), or panics; a
  panic ends the process, and the model keeps the conversation it had then.
  \<open>iterate n\<close> runs at most \<open>n\<close> passes: \<open>Continue s\<close> is then a run still going, in
  the state \<open>s\<close> at the head of the loop.
\<close>

datatype 's outcome = Continue 's | Returned "string option" 's | Panicked "MessageParam list"

fun iterate :: "nat \<Rightarrow> ('s \<Rightarrow> 's outcome) \<Rightarrow> 's \<Rightarrow> 's outcome" where
  "iterate 0 body s = Continue s"
| "iterate (Suc n) body s =
     (case body s of
        Continue s' \<Rightarrow> iterate n body s'
      | Returned r s' \<Rightarrow> Returned r s'
      | Panicked conv \<Rightarrow> Panicked conv)"

fun panicked :: "'s outcome \<Rightarrow> bool" where
  "panicked (Panicked conv) = True"
| "panicked r = False"

definition clear_line :: string where
  "clear_line = [CHR 0x0D, CHR 0x1B] @ ''[K''"

definition user_text :: "string \<Rightarrow> MessageParam" where
  "user_text t = \<lparr>Role = User, Content = [TextBlock t]\<rparr>"

subsection \<open>The agent loop of \<open>pkg/agent\<close>\<close>

definition executeTool :: "'w Agent \<Rightarrow> string \<Rightarrow> string \<Rightarrow> string \<Rightarrow> 'w \<Rightarrow> (ContentBlock \<times> 'w) option" where
  "executeTool a uid name input w =
     (case find (\<lambda>t. Name t = name) (tools a) of
        None \<Rightarrow> Some (ToolResultBlock uid (''Error: Tool '' @ name @ '' not found'') False, w)
      | Some tool \<Rightarrow>
          (case Function tool input w of
             None \<Rightarrow> None
           | Some (Inl err, w') \<Rightarrow> Some (ToolResultBlock uid (''Error: '' @ err) False, w')
           | Some (Inr result, w') \<Rightarrow> Some (ToolResultBlock uid result False, w')))"

text \<open>
  The loop of \<open>runInference\<close> over the blocks of the answer: a tool use is executed,
  traced on the terminal and replaced, in the message, by its result.
\<close>

fun process_tool_calls :: "'w Agent \<Rightarrow> ContentBlock list \<Rightarrow> 'w \<Rightarrow> event list \<Rightarrow> (ContentBlock list \<times> 'w \<times> event list) option" where
  "process_tool_calls a [] w tr = Some ([], w, tr)"
| "process_tool_calls a (ToolUseBlock uid name input # bs) w tr = do {
     (toolResult, w1) \<leftarrow> executeTool a uid name input w;
     (bs', w2, tr') \<leftarrow> process_tool_calls a bs w1
        (tr @ [ExecuteTool uid name input, Print (''tool: '' @ name @ ''('' @ input @ '')'' @ newline)]);
     Some (toolResult # bs', w2, tr')
   }"
| "process_tool_calls a (TextBlock t # bs) w tr = do {
     (bs', w', tr') \<leftarrow> process_tool_calls a bs w tr;
     Some (TextBlock t # bs', w', tr')
   }"
| "process_tool_calls a (ToolResultBlock uid content e # bs) w tr = do {
     (bs', w', tr') \<leftarrow> process_tool_calls a bs w tr;
     Some (ToolResultBlock uid content e # bs', w', tr')
   }"

text \<open>
  \<open>runInference\<close>: the API call, the ticks, the tool calls on the answer, and the
  deferred clearing of the line. The answer's blocks are read before its error is
  looked at, so a nil message panics.
\<close>

definition runInference :: "'w Agent \<Rightarrow> MessageParam list \<Rightarrow> 'w \<Rightarrow> event list \<Rightarrow> ((ContentBlock list \<times> string option) \<times> 'w \<times> event list) option" where
  "runInference a conv w tr =
     (case client a conv of
        (ticks, message, err) \<Rightarrow>
          (case message of
             None \<Rightarrow> None
           | Some content \<Rightarrow> do {
               (content', w', tr') \<leftarrow> process_tool_calls a content w
                  (tr @ [MessagesNew conv] @ replicate ticks Progress);
               Some ((content', err), w', tr' @ [Print clear_line])
             }))"

fun formatResponse :: "ContentBlock list \<Rightarrow> string" where
  "formatResponse [] = []"
| "formatResponse (TextBlock t # bs) = t @ formatResponse bs"
| "formatResponse (ToolResultBlock uid content e # bs) = ''result: '' @ content @ newline @ formatResponse bs"
| "formatResponse (ToolUseBlock uid name input # bs) = formatResponse bs"

definition Run_body :: "'w Agent \<Rightarrow> 'w run_state \<Rightarrow> 'w run_state outcome" where
  "Run_body a s =
     (let tr0 = trace s @ [Print ''You: '', GetUserMessage] in
      case stdin s of
        [] \<Rightarrow> Returned None (s\<lparr>trace := tr0\<rparr>)
      | userMsg # rest \<Rightarrow>
          let conv = conversation s @ [user_text userMsg] in
          (case runInference a conv (world s) tr0 of
             None \<Rightarrow> Panicked conv
           | Some ((content, err), w', tr') \<Rightarrow>
               (case err of
                  Some e \<Rightarrow> Returned (Some e) \<lparr>conversation = conv, stdin = rest, world = w', trace = tr'\<rparr>
                | None \<Rightarrow>
                    Continue \<lparr>conversation = conv @ [\<lparr>Role = Assistant, Content = content\<rparr>],
                              stdin = rest, world = w',
                              trace = tr' @ [Print (''Claude: '' @ formatResponse content @ newline)]\<rparr>)))"

definition initial_conversation :: "MessageParam list" where
  "initial_conversation =
     [user_text ''You are a coding assistant. You can help me with programming tasks. I'll give you tasks, and you can use tools to help me complete them.'']"

definition Run :: "nat \<Rightarrow> 'w Agent \<Rightarrow> string list \<Rightarrow> 'w \<Rightarrow> 'w run_state outcome" where
  "Run n a input w =
     iterate n (Run_body a)
       \<lparr>conversation = initial_conversation, stdin = input, world = w,
        trace = [Print (''doChat with Claude (use 'ctrl-c' to quit)'' @ newline)]\<rparr>"

subsection \<open>The agent loop of the single-file program\<close>

record 'w run_state_original = "'w run_state" +
  readUserInput :: bool

definition executeTool_original :: "'w Agent \<Rightarrow> string \<Rightarrow> string \<Rightarrow> string \<Rightarrow> 'w \<Rightarrow> event list \<Rightarrow> (ContentBlock \<times> 'w \<times> event list) option" where
  "executeTool_original a uid name input w tr =
     (case find (\<lambda>t. Name t = name) (tools a) of
        None \<Rightarrow> Some (ToolResultBlock uid ''tool not found'' True, w, tr)
      | Some toolDef \<Rightarrow>
          let tr1 = tr @ [Print (esc @ ''[92mtool'' @ esc @ ''[0m: '' @ name @ ''('' @ input @ '')'' @ newline)] in
          (case Function toolDef input w of
             None \<Rightarrow> None
           | Some (Inl err, w') \<Rightarrow> Some (ToolResultBlock uid err True, w', tr1)
           | Some (Inr response, w') \<Rightarrow>
               Some (ToolResultBlock uid response False, w',
                     if name = ''edit_file''
                     then tr1 @ [Print (esc @ ''[92mresult'' @ esc @ ''[0m: '' @ response @ newline)]
                     else tr1)))"

definition runInference_original :: "'w Agent \<Rightarrow> MessageParam list \<Rightarrow> event list \<Rightarrow> (ContentBlock list option \<times> string option) \<times> event list" where
  "runInference_original a conv tr =
     (case client a conv of
        (ticks, message, err) \<Rightarrow>
          ((message, err), tr @ [MessagesNew conv] @ replicate ticks Progress @ [Print clear_line]))"

text \<open>The line that the loop of \<open>Run\<close> prints for a text block.\<close>

definition claude_line :: "string \<Rightarrow> event" where
  "claude_line t = Print (esc @ ''[93mClaude'' @ esc @ ''[0m: '' @ t @ newline)"

text \<open>
  The loop of \<open>Run\<close> over the blocks of the answer: a text is printed, a tool use is
  executed and its result appended to \<open>toolResults\<close>.
\<close>

fun dispatch_original :: "'w Agent \<Rightarrow> ContentBlock list \<Rightarrow> 'w \<Rightarrow> event list \<Rightarrow> ContentBlock list \<Rightarrow> (ContentBlock list \<times> 'w \<times> event list) option" where
  "dispatch_original a [] w tr toolResults = Some (toolResults, w, tr)"
| "dispatch_original a (TextBlock t # bs) w tr toolResults =
     dispatch_original a bs w (tr @ [claude_line t]) toolResults"
| "dispatch_original a (ToolUseBlock uid name input # bs) w tr toolResults = do {
     (result, w', tr') \<leftarrow> executeTool_original a uid name input w (tr @ [ExecuteTool uid name input]);
     dispatch_original a bs w' tr' (toolResults @ [result])
   }"
| "dispatch_original a (ToolResultBlock uid content e # bs) w tr toolResults =
     dispatch_original a bs w tr toolResults"

text \<open>
  The part of the loop body after the input: the inference on the conversation
  \<open>conv\<close>, the answer appended, its blocks dispatched, and the tool results, if any,
  appended as one user message.
\<close>

definition inference_turn :: "'w Agent \<Rightarrow> 'w run_state_original \<Rightarrow> 'w run_state_original outcome" where
  "inference_turn a s =
     (case runInference_original a (conversation s) (trace s) of
        ((message, err), tr1) \<Rightarrow>
          (case err of
             Some e \<Rightarrow> Returned (Some e) (s\<lparr>trace := tr1\<rparr>)
           | None \<Rightarrow>
               (case message of
                  None \<Rightarrow> Panicked (conversation s)
                | Some content \<Rightarrow>
                    let conv = conversation s @ [\<lparr>Role = Assistant, Content = content\<rparr>] in
                    (case dispatch_original a content (world s) tr1 [] of
                       None \<Rightarrow> Panicked conv
                     | Some (toolResults, w', tr2) \<Rightarrow>
                         if toolResults = []
                         then Continue (s\<lparr>conversation := conv, world := w', trace := tr2, readUserInput := True\<rparr>)
                         else Continue (s\<lparr>conversation := conv @ [\<lparr>Role = User, Content = toolResults\<rparr>],
                                          world := w', trace := tr2, readUserInput := False\<rparr>)))))"

definition Run_body_original :: "'w Agent \<Rightarrow> 'w run_state_original \<Rightarrow> 'w run_state_original outcome" where
  "Run_body_original a s =
     (if readUserInput s then
        (let tr0 = trace s @ [Print (esc @ ''[94mYou'' @ esc @ ''[0m: ''), GetUserMessage] in
         case stdin s of
           [] \<Rightarrow> Returned None (s\<lparr>trace := tr0\<rparr>)
         | userInput # rest \<Rightarrow>
             inference_turn a (s\<lparr>conversation := conversation s @ [user_text userInput],
                                stdin := rest, trace := tr0\<rparr>))
      else inference_turn a s)"

definition Run_original :: "nat \<Rightarrow> 'w Agent \<Rightarrow> string list \<Rightarrow> 'w \<Rightarrow> 'w run_state_original outcome" where
  "Run_original n a input w =
     iterate n (Run_body_original a)
       \<lparr>conversation = [], stdin = input, world = w,
        trace = [Print (''Chat with Claude (use 'ctrl-c' to quit)'' @ newline)],
        readUserInput = True\<rparr>"


fun is_tool_result :: "ContentBlock \<Rightarrow> bool" where
  "is_tool_result (ToolResultBlock uid content e) = True"
| "is_tool_result b = False"

fun block_id :: "ContentBlock \<Rightarrow> string" where
  "block_id (ToolUseBlock uid name input) = uid"
| "block_id (ToolResultBlock uid content e) = uid"
| "block_id (TextBlock t) = []"

fun resolved :: "ContentBlock \<Rightarrow> ContentBlock \<Rightarrow> bool" where
  "resolved (ToolUseBlock uid name input) b' = (is_tool_result b' \<and> block_id b' = uid)"
| "resolved b b' = (b' = b)"

definition alternating :: "MessageParam list \<Rightarrow> bool" where
  "alternating conv = distinct_adj (map Role conv)"

text \<open>The conversation a run has reached: at the head of the loop, at its return or at its panic.\<close>

fun final_conversation :: "('w, 'z) run_state_scheme outcome \<Rightarrow> MessageParam list" where
  "final_conversation (Continue s) = conversation s"
| "final_conversation (Returned r s) = conversation s"
| "final_conversation (Panicked conv) = conv"

text \<open>
  What the tool calls of \<open>runInference\<close> show on the trace for the blocks of an answer:
  for every tool use the call of \<open>executeTool\<close> and then the line \<open>tool: name(input)\<close>.
\<close>

fun tool_events :: "ContentBlock list \<Rightarrow> event list" where
  "tool_events [] = []"
| "tool_events (ToolUseBlock uid name input # bs) =
     ExecuteTool uid name input # Print (''tool: '' @ name @ ''('' @ input @ '')'' @ newline) # tool_events bs"
| "tool_events (b # bs) = tool_events bs"

fun is_dispatch :: "event \<Rightarrow> bool" where
  "is_dispatch (ExecuteTool uid name input) = True"
| "is_dispatch e = False"


text \<open>
  An agent to run the loops on concrete inputs: the model first answers with a text and
  two tool uses, the second of a tool that is not registered, and then with a text
  only; the one tool, \<open>echo\<close>, returns its input.
\<close>

definition demo_agent :: "unit Agent" where
  "demo_agent = \<lparr>
     client = (\<lambda>conv.
       if length conv < 3
       then (1, Some [TextBlock ''hello'', ToolUseBlock ''t1'' ''echo'' ''{}'', ToolUseBlock ''t2'' ''nope'' ''{}''], None)
       else (0, Some [TextBlock ''done''], None)),
     tools = [\<lparr>Name = ''echo'', Function = (\<lambda>input w. Some (Inr input, w))\<rparr>]
   \<rparr>"

text \<open>
  The invariants of the two loops, at the head of the loop. In the single-file program
  the roles alternate, and the flag \<open>readUserInput\<close> tells whose turn it is. In
  \<open>pkg/agent\<close> the conversation starts with the instruction message, and the roles
  alternate after it.
\<close>

definition loop_inv_original :: "'w run_state_original \<Rightarrow> bool" where
  "loop_inv_original s =
     (alternating (conversation s) \<and>
      (if readUserInput s then conversation s = [] \<or> Role (last (conversation s)) = Assistant
       else conversation s \<noteq> [] \<and> Role (last (conversation s)) = User))"

definition loop_inv :: "'w run_state \<Rightarrow> bool" where
  "loop_inv s =
     (conversation s \<noteq> [] \<and> alternating (tl (conversation s)) \<and>
      (tl (conversation s) = [] \<or> Role (last (tl (conversation s))) = Assistant))"

text \<open>
  The calls of \<open>executeTool\<close> that the blocks of an answer ask for, in block order;
  what \<open>formatResponse\<close> prints for one block; and the trace a run has left.
\<close>

fun dispatches :: "ContentBlock list \<Rightarrow> event list" where
  "dispatches [] = []"
| "dispatches (ToolUseBlock uid name input # bs) = ExecuteTool uid name input # dispatches bs"
| "dispatches (b # bs) = dispatches bs"

fun block_text :: "ContentBlock \<Rightarrow> string" where
  "block_text (TextBlock t) = t"
| "block_text (ToolResultBlock uid content e) = ''result: '' @ content @ newline"
| "block_text (ToolUseBlock uid name input) = []"

fun final_trace :: "('w, 'z) run_state_scheme outcome \<Rightarrow> event list" where
  "final_trace (Continue s) = trace s"
| "final_trace (Returned r s) = trace s"
| "final_trace (Panicked conv) = []"

definition demo_state :: "unit run_state" where
  "demo_state = \<lparr>conversation = initial_conversation, stdin = [''hi''], world = (), trace = []\<rparr>"

definition demo_state_original :: "unit run_state_original" where
  "demo_state_original =
     \<lparr>conversation = [user_text ''hi''], stdin = [], world = (), trace = [], readUserInput = True\<rparr>"

section \<open>Lemmas\<close>

subsection \<open>Slices and the table\<close>

lemma go_index_Some: "0 \<le> i \<Longrightarrow> i < int (length xs) \<Longrightarrow> go_index xs i = Some (xs ! nat i)"
  by (simp add: go_index_def)

lemma slice_split:
  assumes "a \<le> k" "k < b" "b \<le> length xs"
  shows "drop a (take b xs) = drop a (take k xs) @ xs ! k # drop (Suc k) (take b xs)"
proof -
  have lt: "k < length (take b xs)" using assms by simp
  have "take b xs = take k (take b xs) @ (take b xs) ! k # drop (Suc k) (take b xs)"
    by (rule id_take_nth_drop[OF lt])
  also have "take k (take b xs) = take k xs" using assms by (simp add: min_def)
  also have "(take b xs) ! k = xs ! k" using assms by simp
  finally have "drop a (take b xs) = drop a (take k xs @ xs ! k # drop (Suc k) (take b xs))"
    by simp
  then show ?thesis using assms by simp
qed

lemma table_ok_make: "0 \<le> m \<Longrightarrow> 0 \<le> n \<Longrightarrow> table_ok m n (make_table m n)"
  by (auto simp: table_ok_def make_table_def list_all_iff)

lemma table_ok_row:
  assumes "table_ok m n dp" "0 \<le> i" "i \<le> m"
  shows "i < int (length dp)" "int (length (dp ! nat i)) = n + 1"
proof -
  show i: "i < int (length dp)" using assms by (simp add: table_ok_def)
  with assms have "dp ! nat i \<in> set dp" by simp
  with assms show "int (length (dp ! nat i)) = n + 1" by (simp add: table_ok_def list_all_iff)
qed

lemma dp_get_total:
  assumes "table_ok m n dp" "0 \<le> i" "i \<le> m" "0 \<le> j" "j \<le> n"
  shows "\<exists>v. dp_get dp i j = Some v"
  using table_ok_row[OF assms(1-3)] assms by (simp add: dp_get_def go_index_Some)

lemma dp_set_total:
  assumes "table_ok m n dp" "0 \<le> i" "i \<le> m" "0 \<le> j" "j \<le> n"
  shows "\<exists>dp'. dp_set dp i j v = Some dp' \<and> table_ok m n dp'"
proof -
  note row = table_ok_row[OF assms(1-3)]
  have "set (dp[nat i := (dp ! nat i)[nat j := v]]) \<subseteq> insert ((dp ! nat i)[nat j := v]) (set dp)"
    by (rule set_update_subset_insert)
  then have "table_ok m n (dp[nat i := (dp ! nat i)[nat j := v]])"
    using assms(1) row by (auto simp: table_ok_def list_all_iff)
  with row assms show ?thesis by (simp add: dp_set_def go_index_Some)
qed

subsection \<open>The table fill never panics\<close>

lemma fill_row_total:
  "table_ok (int (length ol)) (int (length ml)) dp \<Longrightarrow> 1 \<le> i \<Longrightarrow> i \<le> int (length ol) \<Longrightarrow> 1 \<le> j \<Longrightarrow>
   \<exists>dp'. fill_row ol ml i j dp = Some dp' \<and> table_ok (int (length ol)) (int (length ml)) dp'"
proof (induction ol ml i j dp rule: fill_row.induct)
  case (1 ol ml i j dp)
  note tab = "1.prems"(1)
  show ?case
  proof (cases "j \<le> int (length ml)")
    case False
    with "1.prems" show ?thesis by (subst fill_row.simps) simp
  next
    case True
    let ?m = "int (length ol)" and ?n = "int (length ml)"
    from "1.prems" have a: "go_index ol (i - 1) = Some (ol ! nat (i - 1))"
      by (simp add: go_index_Some)
    from "1.prems" True have b: "go_index ml (j - 1) = Some (ml ! nat (j - 1))"
      by (simp add: go_index_Some)
    obtain d where d: "dp_get dp (i - 1) (j - 1) = Some d"
      using dp_get_total[OF tab, of "i - 1" "j - 1"] "1.prems" True by auto
    obtain u where u: "dp_get dp (i - 1) j = Some u"
      using dp_get_total[OF tab, of "i - 1" j] "1.prems" True by auto
    obtain l where l: "dp_get dp i (j - 1) = Some l"
      using dp_get_total[OF tab, of i "j - 1"] "1.prems" True by auto
    define v where "v = (if ol ! nat (i - 1) = ml ! nat (j - 1) then d + 1 else max u l)"
    have cell: "(if ol ! nat (i - 1) = ml ! nat (j - 1)
          then dp_get dp (i - 1) (j - 1) \<bind> (\<lambda>d. Some (d + 1))
          else dp_get dp (i - 1) j \<bind> (\<lambda>u. dp_get dp i (j - 1) \<bind> (\<lambda>l. Some (max u l)))) = Some v"
      using d u l by (simp add: v_def)
    obtain dp' where dp': "dp_set dp i j v = Some dp'" "table_ok ?m ?n dp'"
      using dp_set_total[OF tab, of i j v] "1.prems" True by auto
    have step: "fill_row ol ml i j dp = fill_row ol ml i (j + 1) dp'"
      using True a b cell dp'(1) by (subst fill_row.simps) simp
    have "\<exists>dp''. fill_row ol ml i (j + 1) dp' = Some dp'' \<and> table_ok ?m ?n dp''"
      using "1.IH"[OF True a b cell dp'(1) dp'(2)] "1.prems" by simp
    with step show ?thesis by simp
  qed
qed

lemma fill_table_total:
  "table_ok (int (length ol)) (int (length ml)) dp \<Longrightarrow> 1 \<le> i \<Longrightarrow>
   \<exists>dp'. fill_table ol ml i dp = Some dp' \<and> table_ok (int (length ol)) (int (length ml)) dp'"
proof (induction ol ml i dp rule: fill_table.induct)
  case (1 ol ml i dp)
  show ?case
  proof (cases "i \<le> int (length ol)")
    case False
    with "1.prems" show ?thesis by (subst fill_table.simps) simp
  next
    case True
    obtain dp' where dp': "fill_row ol ml i 1 dp = Some dp'"
        "table_ok (int (length ol)) (int (length ml)) dp'"
      using fill_row_total[OF "1.prems"(1) "1.prems"(2) True, of 1] by auto
    have "fill_table ol ml i dp = fill_table ol ml (i + 1) dp'"
      using True dp' by (subst fill_table.simps) simp
    moreover have "\<exists>dp''. fill_table ol ml (i + 1) dp' = Some dp'' \<and>
        table_ok (int (length ol)) (int (length ml)) dp''"
      using "1.IH"[OF True dp'(1) dp'(2)] "1.prems" by simp
    ultimately show ?thesis by simp
  qed
qed

subsection \<open>Backtracking yields an alignment\<close>

lemma aligned_weaken: "aligned ol ml i j cs \<Longrightarrow> i' \<le> i \<Longrightarrow> j' \<le> j \<Longrightarrow> aligned ol ml i' j' cs"
  by (cases cs) auto

lemma backtrack_aligned:
  "table_ok (int (length ol)) (int (length ml)) dp \<Longrightarrow>
   0 \<le> i \<Longrightarrow> i \<le> int (length ol) \<Longrightarrow> 0 \<le> j \<Longrightarrow> j \<le> int (length ml) \<Longrightarrow>
   aligned ol ml i j result \<Longrightarrow>
   \<exists>r. backtrack ol ml dp i j result = Some r \<and> aligned ol ml 0 0 r"
proof (induction ol ml dp i j result rule: backtrack.induct)
  case (1 ol ml dp i j result)
  note tab = "1.prems"(1) and al = "1.prems"(6)
  show ?case
  proof (cases "i > 0 \<and> j > 0")
    case False
    have "backtrack ol ml dp i j result = Some result"
      using False by (subst backtrack.simps) auto
    moreover have "aligned ol ml 0 0 result"
      using aligned_weaken[OF al] "1.prems" by simp
    ultimately show ?thesis by simp
  next
    case True
    from "1.prems" True have a: "go_index ol (i - 1) = Some (ol ! nat (i - 1))"
      by (simp add: go_index_Some)
    from "1.prems" True have b: "go_index ml (j - 1) = Some (ml ! nat (j - 1))"
      by (simp add: go_index_Some)
    show ?thesis
    proof (cases "ol ! nat (i - 1) = ml ! nat (j - 1)")
      case eq: True
      let ?c = "\<lparr>originalIndex = i - 1, modifiedIndex = j - 1\<rparr>"
      have step: "backtrack ol ml dp i j result = backtrack ol ml dp (i - 1) (j - 1) (?c # result)"
        using True a b eq by (subst backtrack.simps) simp
      have "aligned ol ml (i - 1) (j - 1) (?c # result)"
        using "1.prems" True eq by simp
      then have "\<exists>r. backtrack ol ml dp (i - 1) (j - 1) (?c # result) = Some r \<and> aligned ol ml 0 0 r"
        using "1.IH"(1)[OF True a b eq tab] "1.prems" True by simp
      with step show ?thesis by simp
    next
      case ne: False
      obtain u where u: "dp_get dp (i - 1) j = Some u"
        using dp_get_total[OF tab, of "i - 1" j] "1.prems" True by auto
      obtain l where l: "dp_get dp i (j - 1) = Some l"
        using dp_get_total[OF tab, of i "j - 1"] "1.prems" True by auto
      show ?thesis
      proof (cases "u > l")
        case gt: True
        have step: "backtrack ol ml dp i j result = backtrack ol ml dp (i - 1) j result"
          using True a b ne u l gt by (subst backtrack.simps) simp
        have "aligned ol ml (i - 1) j result"
          using aligned_weaken[OF al] by simp
        then have "\<exists>r. backtrack ol ml dp (i - 1) j result = Some r \<and> aligned ol ml 0 0 r"
          using "1.IH"(2)[OF True a b ne u l gt tab] "1.prems" True by simp
        with step show ?thesis by simp
      next
        case le: False
        have step: "backtrack ol ml dp i j result = backtrack ol ml dp i (j - 1) result"
          using True a b ne u l le by (subst backtrack.simps) simp
        have "aligned ol ml i (j - 1) result"
          using aligned_weaken[OF al] by simp
        then have "\<exists>r. backtrack ol ml dp i (j - 1) result = Some r \<and> aligned ol ml 0 0 r"
          using "1.IH"(3)[OF True a b ne u l le tab] "1.prems" True by simp
        with step show ?thesis by simp
      qed
    qed
  qed
qed

lemma longestCommonSubsequence_aligned:
  "\<exists>lcs. longestCommonSubsequence ol ml = Some lcs \<and> aligned ol ml 0 0 lcs"
proof -
  let ?m = "int (length ol)" and ?n = "int (length ml)"
  have "table_ok ?m ?n (make_table ?m ?n)" by (simp add: table_ok_make)
  then obtain dp where dp: "fill_table ol ml 1 (make_table ?m ?n) = Some dp" "table_ok ?m ?n dp"
    using fill_table_total[of ol ml "make_table ?m ?n" 1] by auto
  obtain r where "backtrack ol ml dp ?m ?n [] = Some r" "aligned ol ml 0 0 r"
    using backtrack_aligned[OF dp(2), of ?m ?n "[]"] by auto
  with dp show ?thesis by (simp add: longestCommonSubsequence_def)
qed

lemma aligned_entries:
  "aligned ol ml i j cs \<Longrightarrow> 0 \<le> i \<Longrightarrow> 0 \<le> j \<Longrightarrow>
   list_all (\<lambda>c. i \<le> originalIndex c \<and> originalIndex c < int (length ol) \<and>
                 j \<le> modifiedIndex c \<and> modifiedIndex c < int (length ml) \<and>
                 ol ! nat (originalIndex c) = ml ! nat (modifiedIndex c)) cs"
proof (induction cs arbitrary: i j)
  case Nil
  then show ?case by simp
next
  case (Cons c cs)
  from Cons.prems have "aligned ol ml (originalIndex c + 1) (modifiedIndex c + 1) cs" by simp
  from Cons.IH[OF this] Cons.prems
  have "list_all (\<lambda>d. originalIndex c + 1 \<le> originalIndex d \<and> originalIndex d < int (length ol) \<and>
                 modifiedIndex c + 1 \<le> modifiedIndex d \<and> modifiedIndex d < int (length ml) \<and>
                 ol ! nat (originalIndex d) = ml ! nat (modifiedIndex d)) cs"
    by simp
  then have "list_all (\<lambda>d. i \<le> originalIndex d \<and> originalIndex d < int (length ol) \<and>
                 j \<le> modifiedIndex d \<and> modifiedIndex d < int (length ml) \<and>
                 ol ! nat (originalIndex d) = ml ! nat (modifiedIndex d)) cs"
    using Cons.prems by (auto simp: list_all_iff)
  with Cons.prems show ?case by simp
qed

lemma aligned_increasing:
  "aligned ol ml i j cs \<Longrightarrow> 0 \<le> i \<Longrightarrow> 0 \<le> j \<Longrightarrow>
   sorted_wrt (\<lambda>c d. originalIndex c < originalIndex d \<and> modifiedIndex c < modifiedIndex d) cs"
proof (induction cs arbitrary: i j)
  case Nil
  then show ?case by simp
next
  case (Cons c cs)
  from Cons.prems have al: "aligned ol ml (originalIndex c + 1) (modifiedIndex c + 1) cs"
    and nn: "0 \<le> originalIndex c + 1" "0 \<le> modifiedIndex c + 1" by simp_all
  have "list_all (\<lambda>d. originalIndex c < originalIndex d \<and> modifiedIndex c < modifiedIndex d) cs"
    using aligned_entries[OF al nn] by (auto simp: list_all_iff)
  with Cons.IH[OF al nn] show ?case by (simp add: list_all_iff)
qed

subsection \<open>The rendering walk\<close>

lemma kept_lines_append: "kept_lines (xs @ ys) = kept_lines xs @ kept_lines ys"
  by (induction xs rule: kept_lines.induct) auto

lemma source_lines_append: "source_lines (xs @ ys) = source_lines xs @ source_lines ys"
  by (induction xs rule: source_lines.induct) auto

lemma kept_lines_map: "kept_lines (map Deleted ls) = []" "kept_lines (map Added ls) = ls"
  by (induction ls) auto

lemma source_lines_map: "source_lines (map Deleted ls) = ls" "source_lines (map Added ls) = []"
  by (induction ls) auto

lemma emit_lines_range:
  "0 \<le> i \<Longrightarrow> i \<le> bound \<Longrightarrow> bound \<le> int (length ls) \<Longrightarrow>
   emit_lines tag ls i bound out = Some (bound, out @ map tag (drop (nat i) (take (nat bound) ls)))"
proof (induction tag ls i bound out rule: emit_lines.induct)
  case (1 tag ls i bound out)
  show ?case
  proof (cases "i < bound")
    case False
    with "1.prems" show ?thesis by (subst emit_lines.simps) simp
  next
    case True
    from "1.prems" True have l: "go_index ls i = Some (ls ! nat i)" by (simp add: go_index_Some)
    have lt: "nat i < length (take (nat bound) ls)" using "1.prems" True by simp
    have "drop (nat i) (take (nat bound) ls) = ls ! nat i # drop (nat (i + 1)) (take (nat bound) ls)"
      using Cons_nth_drop_Suc[OF lt] "1.prems" True by (simp add: nat_add_distrib)
    moreover have "emit_lines tag ls i bound out = emit_lines tag ls (i + 1) bound (out @ [tag (ls ! nat i)])"
      using True l by (subst emit_lines.simps) simp
    moreover have "emit_lines tag ls (i + 1) bound (out @ [tag (ls ! nat i)]) =
        Some (bound, (out @ [tag (ls ! nat i)]) @ map tag (drop (nat (i + 1)) (take (nat bound) ls)))"
      using "1.IH"[OF True l] "1.prems" True by simp
    ultimately show ?thesis by simp
  qed
qed

lemma diff_walk_aligned:
  "aligned ol ml i j lcs \<Longrightarrow> 0 \<le> i \<Longrightarrow> i \<le> int (length ol) \<Longrightarrow> 0 \<le> j \<Longrightarrow> j \<le> int (length ml) \<Longrightarrow>
   \<exists>i' j' out'. diff_walk ol ml lcs i j out = Some (i', j', out') \<and>
      i \<le> i' \<and> i' \<le> int (length ol) \<and> j \<le> j' \<and> j' \<le> int (length ml) \<and>
      kept_lines out' = kept_lines out @ drop (nat j) (take (nat j') ml) \<and>
      source_lines out' = source_lines out @ drop (nat i) (take (nat i') ol)"
proof (induction lcs arbitrary: i j out)
  case Nil
  then show ?case by simp
next
  case (Cons c lcs)
  let ?oi = "originalIndex c" and ?mi = "modifiedIndex c"
  from Cons.prems have al: "i \<le> ?oi" "?oi < int (length ol)" "j \<le> ?mi" "?mi < int (length ml)"
    "ol ! nat ?oi = ml ! nat ?mi" "aligned ol ml (?oi + 1) (?mi + 1) lcs"
    by simp_all
  let ?out1 = "out @ map Deleted (drop (nat i) (take (nat ?oi) ol))"
  let ?out2 = "?out1 @ map Added (drop (nat j) (take (nat ?mi) ml))"
  let ?out3 = "?out2 @ [Unchanged (ol ! nat ?oi)]"
  have d: "emit_lines Deleted ol i ?oi out = Some (?oi, ?out1)"
    using emit_lines_range[of i ?oi ol Deleted out] Cons.prems(2) al(1,2) by simp
  have a: "emit_lines Added ml j ?mi ?out1 = Some (?mi, ?out2)"
    using emit_lines_range[of j ?mi ml Added ?out1] Cons.prems(4) al(3,4) by simp
  have g: "go_index ol ?oi = Some (ol ! nat ?oi)"
    using Cons.prems(2) al(1,2) by (simp add: go_index_Some)
  have step: "diff_walk ol ml (c # lcs) i j out = diff_walk ol ml lcs (?oi + 1) (?mi + 1) ?out3"
    by (simp add: d a g)
  have pre: "0 \<le> ?oi + 1" "?oi + 1 \<le> int (length ol)" "0 \<le> ?mi + 1" "?mi + 1 \<le> int (length ml)"
    using Cons.prems(2,4) al(1-4) by simp_all
  from Cons.IH[OF al(6) pre, of ?out3]
  obtain i' j' out' where w: "diff_walk ol ml lcs (?oi + 1) (?mi + 1) ?out3 = Some (i', j', out')"
      "?oi + 1 \<le> i'" "i' \<le> int (length ol)" "?mi + 1 \<le> j'" "j' \<le> int (length ml)"
      "kept_lines out' = kept_lines ?out3 @ drop (nat (?mi + 1)) (take (nat j') ml)"
      "source_lines out' = source_lines ?out3 @ drop (nat (?oi + 1)) (take (nat i') ol)"
    by blast
  have mi: "drop (nat j) (take (nat j') ml) =
      drop (nat j) (take (nat ?mi) ml) @ ml ! nat ?mi # drop (nat (?mi + 1)) (take (nat j') ml)"
    using slice_split[of "nat j" "nat ?mi" "nat j'" ml] w(4,5) al(3) Cons.prems(4)
    by (simp add: nat_add_distrib)
  have oi: "drop (nat i) (take (nat i') ol) =
      drop (nat i) (take (nat ?oi) ol) @ ol ! nat ?oi # drop (nat (?oi + 1)) (take (nat i') ol)"
    using slice_split[of "nat i" "nat ?oi" "nat i'" ol] w(2,3) al(1) Cons.prems(2)
    by (simp add: nat_add_distrib)
  have k: "kept_lines out' = kept_lines out @ drop (nat j) (take (nat j') ml)"
    using w(6) mi al(5) by (simp add: kept_lines_append kept_lines_map)
  have s: "source_lines out' = source_lines out @ drop (nat i) (take (nat i') ol)"
    using w(7) oi by (simp add: source_lines_append source_lines_map)
  have "i \<le> i'" "j \<le> j'" using w(2,4) al(1,3) by simp_all
  with step w(1,3,5) k s show ?case by simp
qed

lemma render_diff_aligned:
  assumes "aligned ol ml 0 0 lcs"
  shows "\<exists>out. render_diff ol ml lcs = Some out \<and> kept_lines out = ml \<and> source_lines out = ol"
proof -
  from diff_walk_aligned[OF assms, of "[]"]
  obtain i j out where w: "diff_walk ol ml lcs 0 0 [] = Some (i, j, out)"
      "0 \<le> i" "i \<le> int (length ol)" "0 \<le> j" "j \<le> int (length ml)"
      "kept_lines out = take (nat j) ml" "source_lines out = take (nat i) ol"
    by auto
  let ?out1 = "out @ map Deleted (drop (nat i) ol)"
  let ?out2 = "?out1 @ map Added (drop (nat j) ml)"
  have d: "emit_lines Deleted ol i (int (length ol)) out = Some (int (length ol), ?out1)"
    using emit_lines_range[of i "int (length ol)" ol Deleted out] w(2,3) by simp
  have a: "emit_lines Added ml j (int (length ml)) ?out1 = Some (int (length ml), ?out2)"
    using emit_lines_range[of j "int (length ml)" ml Added ?out1] w(4,5) by simp
  have "render_diff ol ml lcs = Some ?out2"
    using w(1) d a by (simp add: render_diff_def)
  moreover have "kept_lines ?out2 = ml"
    using w(6) by (simp add: kept_lines_append kept_lines_map)
  moreover have "source_lines ?out2 = ol"
    using w(7) by (simp add: source_lines_append source_lines_map)
  ultimately show ?thesis by simp
qed

subsection \<open>Replacement of text\<close>


lemma strings_Index_None: "strings_Index s old = None \<longleftrightarrow> \<not> sublist old s"
  by (induction s) (auto simp: sublist_Cons_right)

lemma strings_Index_decomp:
  "strings_Index s old = Some j \<Longrightarrow> s = take j s @ old @ drop (j + length old) s"
proof (induction s arbitrary: j)
  case Nil
  then show ?case by (simp split: if_splits)
next
  case (Cons c cs)
  show ?case
  proof (cases "prefix old (c # cs)")
    case True
    with Cons.prems have "j = 0" by simp
    with True show ?thesis by (auto simp: prefix_def)
  next
    case False
    with Cons.prems obtain k where k: "strings_Index cs old = Some k" "j = Suc k" by auto
    from Cons.IH[OF k(1)] k(2) show ?thesis by simp
  qed
qed

lemma replace_all_absent: "\<not> sublist old s \<Longrightarrow> replace_all s old new = s"
  by (subst replace_all.simps) (simp add: strings_Index_None[symmetric])

lemma replace_all_first:
  "old \<noteq> [] \<Longrightarrow> strings_Index s old = Some j \<Longrightarrow>
   replace_all s old new = take j s @ new @ replace_all (drop (j + length old) s) old new"
  by (subst replace_all.simps) simp

lemma replace_all_length_le:
  "length new \<le> length old \<Longrightarrow> length (replace_all s old new) \<le> length s"
proof (induction s old new rule: replace_all.induct)
  case (1 s old new)
  show ?case
  proof (cases "old = []")
    case True
    then show ?thesis by (subst replace_all.simps) simp
  next
    case ne: False
    show ?thesis
    proof (cases "strings_Index s old")
      case None
      with ne show ?thesis by (subst replace_all.simps) simp
    next
      case (Some j)
      from "1.IH"[OF ne Some] "1.prems"
      have "length (replace_all (drop (j + length old) s) old new) \<le> length s - (j + length old)"
        by simp
      moreover have "j + length old \<le> length s" using strings_Index_bound[OF Some] .
      ultimately show ?thesis
        using "1.prems" by (simp add: replace_all_first[OF ne Some])
    qed
  qed
qed

lemma replace_all_length_ge:
  "length old \<le> length new \<Longrightarrow> length s \<le> length (replace_all s old new)"
proof (induction s old new rule: replace_all.induct)
  case (1 s old new)
  show ?case
  proof (cases "old = []")
    case True
    then show ?thesis by (subst replace_all.simps) simp
  next
    case ne: False
    show ?thesis
    proof (cases "strings_Index s old")
      case None
      with ne show ?thesis by (subst replace_all.simps) simp
    next
      case (Some j)
      from "1.IH"[OF ne Some] "1.prems"
      have "length s - (j + length old) \<le> length (replace_all (drop (j + length old) s) old new)"
        by simp
      moreover have "j + length old \<le> length s" using strings_Index_bound[OF Some] .
      ultimately show ?thesis
        using "1.prems" by (simp add: replace_all_first[OF ne Some])
    qed
  qed
qed

lemma replace_all_changes:
  assumes "old \<noteq> []" "old \<noteq> new" "sublist old s"
  shows "replace_all s old new \<noteq> s"
proof
  assume eq: "replace_all s old new = s"
  from assms(3) obtain j where j: "strings_Index s old = Some j"
    using strings_Index_None[of s old] by (cases "strings_Index s old") auto
  let ?rest = "drop (j + length old) s"
  let ?r = "replace_all ?rest old new"
  have "take j s @ new @ ?r = take j s @ old @ ?rest"
    using eq replace_all_first[OF assms(1) j, of new] strings_Index_decomp[OF j] by simp
  then have e: "new @ ?r = old @ ?rest" by simp
  consider "length new = length old" | "length new < length old" | "length old < length new"
    by linarith
  then show False
  proof cases
    case 1
    with e have "new = old" by simp
    with assms(2) show False by simp
  next
    case 2
    then have "length ?r \<le> length ?rest" using replace_all_length_le[of new old ?rest] by simp
    with 2 have "length (new @ ?r) < length (old @ ?rest)" by simp
    with e show False by simp
  next
    case 3
    then have "length ?rest \<le> length ?r" using replace_all_length_ge[of old new ?rest] by simp
    with 3 have "length (old @ ?rest) < length (new @ ?r)" by simp
    with e show False by simp
  qed
qed

lemma strings_Replace_absent: "\<not> sublist old s \<Longrightarrow> strings_Replace s old new = s"
  by (auto simp: strings_Replace_def replace_all_absent)

lemma strings_Replace_changes:
  "old \<noteq> [] \<Longrightarrow> old \<noteq> new \<Longrightarrow> sublist old s \<Longrightarrow> strings_Replace s old new \<noteq> s"
  by (simp add: strings_Replace_def replace_all_changes)

lemma replace_empty_runes:
  "new @ replace_empty s new = concat (map ((@) new) (runes s)) @ new"
proof (induction s new rule: replace_empty.induct)
  case (1 s new)
  show ?case
  proof (cases "s = []")
    case True
    then show ?thesis by (subst replace_empty.simps, subst runes.simps) simp
  next
    case False
    have "new @ replace_empty s new =
        new @ take (rune_width s) s @ new @ replace_empty (drop (rune_width s) s) new"
      using False by (subst replace_empty.simps) simp
    also have "\<dots> = (new @ take (rune_width s) s) @
        concat (map ((@) new) (runes (drop (rune_width s) s))) @ new"
      using "1.IH"[OF False] by simp
    also have "\<dots> = concat (map ((@) new) (runes s)) @ new"
      using False by (subst (2) runes.simps) simp
    finally show ?thesis .
  qed
qed

lemma concat_runes: "concat (runes s) = s"
proof (induction s rule: runes.induct)
  case (1 s)
  show ?case
  proof (cases "s = []")
    case True
    then show ?thesis by (subst runes.simps) simp
  next
    case False
    with "1.IH" show ?thesis by (subst runes.simps) simp
  qed
qed

lemma runes_nonempty: "list_all (\<lambda>r. r \<noteq> []) (runes s)"
proof (induction s rule: runes.induct)
  case (1 s)
  show ?case
  proof (cases "s = []")
    case True
    then show ?thesis by (subst runes.simps) simp
  next
    case False
    with "1.IH" rune_width_bounds[OF False] show ?thesis
      by (subst runes.simps) (cases s, auto)
  qed
qed

lemma diff_never_panics:
  "\<exists>lcs out. longestCommonSubsequence ol ml = Some lcs \<and> render_diff ol ml lcs = Some out"
proof -
  obtain lcs where lcs: "longestCommonSubsequence ol ml = Some lcs" "aligned ol ml 0 0 lcs"
    using longestCommonSubsequence_aligned by blast
  from render_diff_aligned[OF lcs(2)] lcs(1) show ?thesis by blast
qed

subsection \<open>The loop of \<open>pkg/agent\<close>\<close>

lemma executeTool_resolved:
  "executeTool a uid name input w = Some (r, w') \<Longrightarrow> is_tool_result r \<and> block_id r = uid"
  by (auto simp: executeTool_def split: option.splits sum.splits prod.splits)

lemma process_tool_calls_resolved:
  "process_tool_calls a bs w tr = Some (bs', w', tr') \<Longrightarrow>
   list_all2 resolved bs bs' \<and> tr' = tr @ tool_events bs"
proof (induction a bs w tr arbitrary: bs' w' tr' rule: process_tool_calls.induct)
  case (1 a w tr)
  then show ?case by simp
next
  case (2 a uid name input bs w tr)
  from "2.prems" obtain toolResult w1 bs1 where
    e: "executeTool a uid name input w = Some (toolResult, w1)" and
    p: "process_tool_calls a bs w1
          (tr @ [ExecuteTool uid name input, Print (''tool: '' @ name @ ''('' @ input @ '')'' @ newline)]) =
        Some (bs1, w', tr')" and
    b: "bs' = toolResult # bs1"
    by (auto split: Option.bind_splits prod.splits)
  from "2.IH"[OF e refl p] executeTool_resolved[OF e] b show ?case by simp
next
  case (3 a t bs w tr)
  then show ?case by (auto split: Option.bind_splits prod.splits)
next
  case (4 a uid content e bs w tr)
  then show ?case by (auto split: Option.bind_splits prod.splits)
qed

lemma Run_body_turn:
  assumes "stdin s = userMsg # rest"
    and "client a (conversation s @ [user_text userMsg]) = (ticks, Some content, None)"
    and "\<not> panicked (Run_body a s)"
  shows "\<exists>content' w'. list_all2 resolved content content' \<and>
     Run_body a s = Continue
       \<lparr>conversation = conversation s @ [user_text userMsg, \<lparr>Role = Assistant, Content = content'\<rparr>],
        stdin = rest, world = w',
        trace = trace s @ [Print ''You: '', GetUserMessage, MessagesNew (conversation s @ [user_text userMsg])] @
                replicate ticks Progress @ tool_events content @
                [Print clear_line, Print (''Claude: '' @ formatResponse content' @ newline)]\<rparr>"
proof -
  let ?conv = "conversation s @ [user_text userMsg]"
  let ?tr0 = "trace s @ [Print ''You: '', GetUserMessage]"
  let ?tr1 = "?tr0 @ [MessagesNew ?conv] @ replicate ticks Progress"
  from assms obtain content' w' tr' where
    p: "process_tool_calls a content (world s) ?tr1 = Some (content', w', tr')"
    by (cases "process_tool_calls a content (world s) ?tr1")
       (auto simp: Run_body_def runInference_def)
  from process_tool_calls_resolved[OF p]
  have r: "list_all2 resolved content content'" and t: "tr' = ?tr1 @ tool_events content" by simp_all
  have "Run_body a s = Continue
       \<lparr>conversation = ?conv @ [\<lparr>Role = Assistant, Content = content'\<rparr>],
        stdin = rest, world = w',
        trace = (tr' @ [Print clear_line]) @ [Print (''Claude: '' @ formatResponse content' @ newline)]\<rparr>"
    using assms(1,2) p by (simp add: Run_body_def runInference_def)
  with r t show ?thesis by auto
qed


subsection \<open>The loop of the single-file program\<close>



lemma executeTool_original_trace:
  "executeTool_original a uid name input w tr = Some (r, w', tr') \<Longrightarrow>
   \<exists>evs. tr' = tr @ evs \<and> filter is_dispatch evs = []"
  by (auto simp: executeTool_original_def Let_def split: option.splits sum.splits prod.splits if_splits)

lemma dispatch_original_trace:
  "dispatch_original a bs w tr acc = Some (results, w', tr') \<Longrightarrow>
   \<exists>evs. tr' = tr @ evs \<and> filter is_dispatch evs = dispatches bs"
proof (induction a bs w tr acc arbitrary: results w' tr' rule: dispatch_original.induct)
  case (1 a w tr toolResults)
  then show ?case by simp
next
  case (2 a t bs w tr toolResults)
  from "2.IH"[of results w' tr'] "2.prems" obtain evs where
    "tr' = (tr @ [claude_line t]) @ evs"
    "filter is_dispatch evs = dispatches bs"
    by auto
  then have "tr' = tr @ (claude_line t # evs) \<and>
      filter is_dispatch (claude_line t # evs) = dispatches (TextBlock t # bs)"
    by (simp add: claude_line_def)
  then show ?case by blast
next
  case (3 a uid name input bs w tr toolResults)
  from "3.prems" obtain result w1 tr1 where
    e: "executeTool_original a uid name input w (tr @ [ExecuteTool uid name input]) = Some (result, w1, tr1)" and
    d: "dispatch_original a bs w1 tr1 (toolResults @ [result]) = Some (results, w', tr')"
    by (auto split: Option.bind_splits prod.splits)
  from executeTool_original_trace[OF e] obtain evs1 where
    e1: "tr1 = (tr @ [ExecuteTool uid name input]) @ evs1" "filter is_dispatch evs1 = []"
    by blast
  from "3.IH"[OF e refl refl d] obtain evs2 where
    e2: "tr' = tr1 @ evs2" "filter is_dispatch evs2 = dispatches bs"
    by blast
  from e1 e2 have "tr' = tr @ (ExecuteTool uid name input # evs1 @ evs2) \<and>
      filter is_dispatch (ExecuteTool uid name input # evs1 @ evs2) =
      dispatches (ToolUseBlock uid name input # bs)"
    by simp
  then show ?case by blast
next
  case (4 a uid content e bs w tr toolResults)
  then show ?case by simp
qed

lemma dispatch_original_append:
  "dispatch_original a (xs @ ys) w tr acc =
     (case dispatch_original a xs w tr acc of
        None \<Rightarrow> None
      | Some (acc1, w1, tr1) \<Rightarrow> dispatch_original a ys w1 tr1 acc1)"
proof (induction a xs w tr acc rule: dispatch_original.induct)
  case (1 a w tr toolResults)
  then show ?case by simp
next
  case (2 a t bs w tr toolResults)
  then show ?case by simp
next
  case (3 a uid name input bs w tr toolResults)
  show ?case
  proof (cases "executeTool_original a uid name input w (tr @ [ExecuteTool uid name input])")
    case None
    then show ?thesis by simp
  next
    case (Some x)
    then obtain result w1 tr1 where
      e: "executeTool_original a uid name input w (tr @ [ExecuteTool uid name input]) = Some (result, w1, tr1)"
      by (cases x) auto
    from "3.IH"[OF e refl refl] e show ?thesis by simp
  qed
next
  case (4 a uid content e bs w tr toolResults)
  then show ?case by simp
qed

lemma dispatch_original_text:
  assumes "dispatch_original a (pre @ TextBlock t # post) w tr acc = Some (results, w', tr')"
  shows "\<exists>evs1 evs2. tr' = tr @ evs1 @ [claude_line t] @ evs2 \<and>
     filter is_dispatch evs1 = dispatches pre \<and> filter is_dispatch evs2 = dispatches post"
proof -
  from assms obtain acc1 w1 tr1 where
    p: "dispatch_original a pre w tr acc = Some (acc1, w1, tr1)" and
    q: "dispatch_original a post w1 (tr1 @ [claude_line t]) acc1 = Some (results, w', tr')"
    by (auto simp: dispatch_original_append split: option.splits prod.splits)
  from dispatch_original_trace[OF p] obtain evs1 where
    e1: "tr1 = tr @ evs1" "filter is_dispatch evs1 = dispatches pre" by blast
  from dispatch_original_trace[OF q] obtain evs2 where
    e2: "tr' = (tr1 @ [claude_line t]) @ evs2" "filter is_dispatch evs2 = dispatches post" by blast
  from e1 e2 show ?thesis by auto
qed

lemma inference_turn_answer:
  assumes "client a (conversation s) = (ticks, Some content, None)"
    and "\<not> panicked (inference_turn a s)"
  shows "\<exists>results w' tr'.
     dispatch_original a content (world s)
       (trace s @ [MessagesNew (conversation s)] @ replicate ticks Progress @ [Print clear_line]) [] =
       Some (results, w', tr') \<and>
     inference_turn a s =
       Continue (if results = []
         then s\<lparr>conversation := conversation s @ [\<lparr>Role = Assistant, Content = content\<rparr>],
                world := w', trace := tr', readUserInput := True\<rparr>
         else s\<lparr>conversation := conversation s @ [\<lparr>Role = Assistant, Content = content\<rparr>,
                                                    \<lparr>Role = User, Content = results\<rparr>],
                world := w', trace := tr', readUserInput := False\<rparr>)"
proof -
  let ?tr1 = "trace s @ [MessagesNew (conversation s)] @ replicate ticks Progress @ [Print clear_line]"
  from assms obtain results w' tr' where
    d: "dispatch_original a content (world s) ?tr1 [] = Some (results, w', tr')"
    by (cases "dispatch_original a content (world s) ?tr1 []")
       (auto simp: inference_turn_def runInference_original_def)
  with assms(1) show ?thesis
    by (simp add: inference_turn_def runInference_original_def)
qed


lemma inference_turn_text:
  assumes "client a (conversation s) = (ticks, Some (pre @ TextBlock t # post), None)"
    and "\<not> panicked (inference_turn a s)"
  shows "\<exists>s' evs1 evs2. inference_turn a s = Continue s' \<and>
     trace s' = trace s @ [MessagesNew (conversation s)] @ replicate ticks Progress @
                [Print clear_line] @ evs1 @ [claude_line t] @ evs2 \<and>
     filter is_dispatch evs1 = dispatches pre \<and> filter is_dispatch evs2 = dispatches post"
proof -
  let ?tr1 = "trace s @ [MessagesNew (conversation s)] @ replicate ticks Progress @ [Print clear_line]"
  from inference_turn_answer[OF assms] obtain results w' tr' where
    d: "dispatch_original a (pre @ TextBlock t # post) (world s) ?tr1 [] = Some (results, w', tr')" and
    i: "inference_turn a s =
       Continue (if results = []
         then s\<lparr>conversation := conversation s @ [\<lparr>Role = Assistant, Content = pre @ TextBlock t # post\<rparr>],
                world := w', trace := tr', readUserInput := True\<rparr>
         else s\<lparr>conversation := conversation s @ [\<lparr>Role = Assistant, Content = pre @ TextBlock t # post\<rparr>,
                                                    \<lparr>Role = User, Content = results\<rparr>],
                world := w', trace := tr', readUserInput := False\<rparr>)"
    by blast
  from dispatch_original_text[OF d] obtain evs1 evs2 where
    e: "tr' = ?tr1 @ evs1 @ [claude_line t] @ evs2"
       "filter is_dispatch evs1 = dispatches pre" "filter is_dispatch evs2 = dispatches post"
    by blast
  let ?s' = "if results = []
         then s\<lparr>conversation := conversation s @ [\<lparr>Role = Assistant, Content = pre @ TextBlock t # post\<rparr>],
                world := w', trace := tr', readUserInput := True\<rparr>
         else s\<lparr>conversation := conversation s @ [\<lparr>Role = Assistant, Content = pre @ TextBlock t # post\<rparr>,
                                                    \<lparr>Role = User, Content = results\<rparr>],
                world := w', trace := tr', readUserInput := False\<rparr>"
  have "trace ?s' = tr'" by simp
  with i e have "inference_turn a s = Continue ?s' \<and>
     trace ?s' = trace s @ [MessagesNew (conversation s)] @ replicate ticks Progress @
                [Print clear_line] @ evs1 @ [claude_line t] @ evs2 \<and>
     filter is_dispatch evs1 = dispatches pre \<and> filter is_dispatch evs2 = dispatches post"
    by simp
  then show ?thesis by blast
qed


subsection \<open>Alternation of roles\<close>

lemma alternating_snoc:
  "alternating (conv @ [m]) \<longleftrightarrow> alternating conv \<and> (conv = [] \<or> Role (last conv) \<noteq> Role m)"
  by (auto simp: alternating_def distinct_adj_append_iff last_map)

lemma alternating_snoc2:
  "alternating (conv @ [m1, m2]) \<longleftrightarrow>
   alternating conv \<and> (conv = [] \<or> Role (last conv) \<noteq> Role m1) \<and> Role m1 \<noteq> Role m2"
  using alternating_snoc[of "conv @ [m1]" m2] alternating_snoc[of conv m1] by auto

lemma iterate_invariant:
  assumes step: "\<And>s. I s \<Longrightarrow>
      (case body s of Continue s' \<Rightarrow> I s' | Returned r s' \<Rightarrow> Q (conversation s') | Panicked conv \<Rightarrow> Q conv)"
    and init: "I s" and weaken: "\<And>s. I s \<Longrightarrow> Q (conversation s)"
  shows "Q (final_conversation (iterate n body s))"
  using init
proof (induction n arbitrary: s)
  case 0
  then show ?case by (simp add: weaken)
next
  case (Suc n)
  from step[OF Suc.prems] Suc.IH show ?case
    by (cases "body s") simp_all
qed

lemma inference_turn_inv:
  assumes "alternating (conversation s)" and "conversation s \<noteq> []"
    and "Role (last (conversation s)) = User"
  shows "case inference_turn a s of
           Continue s' \<Rightarrow> loop_inv_original s'
         | Returned r s' \<Rightarrow> alternating (conversation s')
         | Panicked conv \<Rightarrow> alternating conv"
  using assms
  by (simp add: inference_turn_def Let_def loop_inv_original_def alternating_snoc alternating_snoc2
      split: prod.splits option.splits)

lemma Run_body_original_inv:
  assumes "loop_inv_original s"
  shows "case Run_body_original a s of
           Continue s' \<Rightarrow> loop_inv_original s'
         | Returned r s' \<Rightarrow> alternating (conversation s')
         | Panicked conv \<Rightarrow> alternating conv"
proof (cases "readUserInput s")
  case False
  with assms inference_turn_inv[of s a] show ?thesis
    by (simp add: Run_body_original_def loop_inv_original_def)
next
  case True
  show ?thesis
  proof (cases "stdin s")
    case Nil
    with True assms show ?thesis
      by (simp add: Run_body_original_def loop_inv_original_def)
  next
    case (Cons userInput rest)
    let ?s = "s\<lparr>conversation := conversation s @ [user_text userInput], stdin := rest,
                 trace := trace s @ [Print (esc @ ''[94mYou'' @ esc @ ''[0m: ''), GetUserMessage]\<rparr>"
    have "alternating (conversation ?s)" "conversation ?s \<noteq> []" "Role (last (conversation ?s)) = User"
      using assms True by (auto simp: loop_inv_original_def alternating_snoc user_text_def)
    from inference_turn_inv[OF this, of a] True Cons show ?thesis
      by (simp add: Run_body_original_def)
  qed
qed

lemma Run_body_inv:
  assumes "loop_inv (s :: 'w run_state)"
  shows "case Run_body a s of
           Continue s' \<Rightarrow> loop_inv s'
         | Returned r s' \<Rightarrow> alternating (tl (conversation s'))
         | Panicked conv \<Rightarrow> alternating (tl conv)"
proof (cases "stdin s")
  case Nil
  with assms show ?thesis by (simp add: Run_body_def loop_inv_def)
next
  case (Cons userMsg rest)
  let ?conv = "conversation s @ [user_text userMsg]"
  from assms have ne: "conversation s \<noteq> []" by (simp add: loop_inv_def)
  then have tl1: "tl ?conv = tl (conversation s) @ [user_text userMsg]" by simp
  have a1: "alternating (tl ?conv)"
    unfolding tl1 using assms by (auto simp: loop_inv_def alternating_snoc user_text_def)
  have a2: "alternating (tl (?conv @ [\<lparr>Role = Assistant, Content = content\<rparr>]))" for content
    using assms ne by (auto simp: loop_inv_def alternating_snoc2 user_text_def)
  have l2: "loop_inv \<lparr>conversation = ?conv @ [\<lparr>Role = Assistant, Content = content\<rparr>],
       stdin = rest, world = w, trace = tr\<rparr>" for content and w :: 'w and tr
    using a2[of content] ne by (simp add: loop_inv_def user_text_def)
  show ?thesis
  proof (cases "runInference a ?conv (world s) (trace s @ [Print ''You: '', GetUserMessage])")
    case None
    with Cons a1 show ?thesis by (simp add: Run_body_def)
  next
    case (Some x)
    then obtain content err w' tr' where
      x: "runInference a ?conv (world s) (trace s @ [Print ''You: '', GetUserMessage]) =
          Some ((content, err), w', tr')"
      by (cases x) auto
    show ?thesis
    proof (cases err)
      case None
      have "Run_body a s = Continue \<lparr>conversation = ?conv @ [\<lparr>Role = Assistant, Content = content\<rparr>],
          stdin = rest, world = w', trace = tr' @ [Print (''Claude: '' @ formatResponse content @ newline)]\<rparr>"
        using Cons x None by (simp add: Run_body_def)
      with l2 show ?thesis by simp
    next
      case (Some e)
      have "Run_body a s = Returned (Some e) \<lparr>conversation = ?conv, stdin = rest, world = w', trace = tr'\<rparr>"
        using Cons x Some by (simp add: Run_body_def)
      with a1 show ?thesis by simp
    qed
  qed
qed

lemma tool_events_dispatches: "filter is_dispatch (tool_events bs) = dispatches bs"
  by (induction bs rule: tool_events.induct) auto


lemma formatResponse_block_text: "formatResponse bs = concat (map block_text bs)"
  by (induction bs rule: formatResponse.induct) auto

section \<open>The claims\<close>

subsection \<open>The diff engine\<close>

text \<open>
  Claim C2. For every pair of line sequences \<open>ol\<close> and \<open>ml\<close>, the rendering of the
  diff from \<open>ol\<close> to \<open>ml\<close> is produced, and keeping its unchanged and added lines, in
  output order, while dropping the deleted ones, gives back \<open>ml\<close> exactly. (The lines it
  consumes, unchanged and deleted, are \<open>ol\<close>.)
\<close>

theorem diff_round_trip:
  "\<exists>lcs out. longestCommonSubsequence ol ml = Some lcs \<and> render_diff ol ml lcs = Some out \<and>
     kept_lines out = ml \<and> source_lines out = ol"
proof -
  obtain lcs where lcs: "longestCommonSubsequence ol ml = Some lcs" "aligned ol ml 0 0 lcs"
    using longestCommonSubsequence_aligned by blast
  from render_diff_aligned[OF lcs(2)] lcs(1) show ?thesis by blast
qed

theorem diff_round_trip_witness:
  "longestCommonSubsequence [''a'', ''b'', ''c''] [''b'', ''x'', ''c''] =
     Some [\<lparr>originalIndex = 1, modifiedIndex = 0\<rparr>, \<lparr>originalIndex = 2, modifiedIndex = 2\<rparr>] \<and>
   render_diff [''a'', ''b'', ''c''] [''b'', ''x'', ''c'']
     [\<lparr>originalIndex = 1, modifiedIndex = 0\<rparr>, \<lparr>originalIndex = 2, modifiedIndex = 2\<rparr>] =
     Some [Deleted ''a'', Unchanged ''b'', Added ''x'', Unchanged ''c''] \<and>
   (\<exists>lcs out. longestCommonSubsequence [''a'', ''b'', ''c''] [''b'', ''x'', ''c''] = Some lcs \<and>
      render_diff [''a'', ''b'', ''c''] [''b'', ''x'', ''c''] lcs = Some out \<and>
      kept_lines out = [''b'', ''x'', ''c''] \<and> source_lines out = [''a'', ''b'', ''c''])"
proof (intro conjI)
  show "longestCommonSubsequence [''a'', ''b'', ''c''] [''b'', ''x'', ''c''] =
     Some [\<lparr>originalIndex = 1, modifiedIndex = 0\<rparr>, \<lparr>originalIndex = 2, modifiedIndex = 2\<rparr>]"
    by code_simp
  show "render_diff [''a'', ''b'', ''c''] [''b'', ''x'', ''c'']
     [\<lparr>originalIndex = 1, modifiedIndex = 0\<rparr>, \<lparr>originalIndex = 2, modifiedIndex = 2\<rparr>] =
     Some [Deleted ''a'', Unchanged ''b'', Added ''x'', Unchanged ''c'']"
    by code_simp
  show "\<exists>lcs out. longestCommonSubsequence [''a'', ''b'', ''c''] [''b'', ''x'', ''c''] = Some lcs \<and>
      render_diff [''a'', ''b'', ''c''] [''b'', ''x'', ''c''] lcs = Some out \<and>
      kept_lines out = [''b'', ''x'', ''c''] \<and> source_lines out = [''a'', ''b'', ''c'']"
    by (rule diff_round_trip)
qed

text \<open>
  Claim C3. For every pair of line sequences, the entries that the backtracking of
  \<open>longestCommonSubsequence\<close> returns increase strictly in the original-line coordinate
  and in the modified-line coordinate, and every entry \<open>(oi, mi)\<close> names a line of each
  sequence with \<open>ol[oi] = ml[mi]\<close>.
\<close>

theorem lcs_entries_increasing_equal:
  "\<exists>lcs. longestCommonSubsequence ol ml = Some lcs \<and>
     sorted_wrt (\<lambda>c d. originalIndex c < originalIndex d \<and> modifiedIndex c < modifiedIndex d) lcs \<and>
     list_all (\<lambda>c. \<exists>l. go_index ol (originalIndex c) = Some l \<and>
                        go_index ml (modifiedIndex c) = Some l) lcs"
proof -
  obtain lcs where lcs: "longestCommonSubsequence ol ml = Some lcs" "aligned ol ml 0 0 lcs"
    using longestCommonSubsequence_aligned by blast
  have "sorted_wrt (\<lambda>c d. originalIndex c < originalIndex d \<and> modifiedIndex c < modifiedIndex d) lcs"
    using aligned_increasing[OF lcs(2)] by simp
  moreover have "list_all (\<lambda>c. \<exists>l. go_index ol (originalIndex c) = Some l \<and>
                        go_index ml (modifiedIndex c) = Some l) lcs"
    using aligned_entries[OF lcs(2)] by (auto simp: list_all_iff go_index_def)
  ultimately show ?thesis using lcs(1) by blast
qed

theorem lcs_entries_increasing_equal_witness:
  "longestCommonSubsequence [''a'', ''b'', ''a'', ''c''] [''b'', ''a'', ''c'', ''a''] =
     Some [\<lparr>originalIndex = 1, modifiedIndex = 0\<rparr>, \<lparr>originalIndex = 2, modifiedIndex = 1\<rparr>,
           \<lparr>originalIndex = 3, modifiedIndex = 2\<rparr>] \<and>
   (\<exists>lcs. longestCommonSubsequence [''a'', ''b'', ''a'', ''c''] [''b'', ''a'', ''c'', ''a''] = Some lcs \<and>
     sorted_wrt (\<lambda>c d. originalIndex c < originalIndex d \<and> modifiedIndex c < modifiedIndex d) lcs \<and>
     list_all (\<lambda>c. \<exists>l. go_index [''a'', ''b'', ''a'', ''c''] (originalIndex c) = Some l \<and>
                        go_index [''b'', ''a'', ''c'', ''a''] (modifiedIndex c) = Some l) lcs)"
proof (intro conjI)
  show "longestCommonSubsequence [''a'', ''b'', ''a'', ''c''] [''b'', ''a'', ''c'', ''a''] =
     Some [\<lparr>originalIndex = 1, modifiedIndex = 0\<rparr>, \<lparr>originalIndex = 2, modifiedIndex = 1\<rparr>,
           \<lparr>originalIndex = 3, modifiedIndex = 2\<rparr>]"
    by code_simp
  show "\<exists>lcs. longestCommonSubsequence [''a'', ''b'', ''a'', ''c''] [''b'', ''a'', ''c'', ''a''] = Some lcs \<and>
     sorted_wrt (\<lambda>c d. originalIndex c < originalIndex d \<and> modifiedIndex c < modifiedIndex d) lcs \<and>
     list_all (\<lambda>c. \<exists>l. go_index [''a'', ''b'', ''a'', ''c''] (originalIndex c) = Some l \<and>
                        go_index [''b'', ''a'', ''c'', ''a''] (modifiedIndex c) = Some l) lcs"
    by (rule lcs_entries_increasing_equal)
qed

text \<open>
  Claim C9. For every pair of line sequences, the rendering walk indexes in bounds
  only: the entries of the alignment satisfy \<open>0 \<le> originalIndex < len(originalLines)\<close>
  and \<open>0 \<le> modifiedIndex < len(modifiedLines)\<close> and increase, so neither the table fill,
  the backtracking nor the walk takes the out-of-range branch of an indexing (the
  result \<open>None\<close>), and \<open>GenerateDiff\<close> never panics.
\<close>

theorem diff_walk_in_bounds:
  "(\<exists>lcs out. longestCommonSubsequence ol ml = Some lcs \<and>
      list_all (\<lambda>c. 0 \<le> originalIndex c \<and> originalIndex c < int (length ol) \<and>
                    0 \<le> modifiedIndex c \<and> modifiedIndex c < int (length ml)) lcs \<and>
      sorted_wrt (\<lambda>c d. originalIndex c < originalIndex d \<and> modifiedIndex c < modifiedIndex d) lcs \<and>
      render_diff ol ml lcs = Some out) \<and>
   GenerateDiff input \<noteq> None"
proof
  obtain lcs where lcs: "longestCommonSubsequence ol ml = Some lcs" "aligned ol ml 0 0 lcs"
    using longestCommonSubsequence_aligned by blast
  have "list_all (\<lambda>c. 0 \<le> originalIndex c \<and> originalIndex c < int (length ol) \<and>
                    0 \<le> modifiedIndex c \<and> modifiedIndex c < int (length ml)) lcs"
    using aligned_entries[OF lcs(2)] by (auto simp: list_all_iff)
  moreover have "sorted_wrt (\<lambda>c d. originalIndex c < originalIndex d \<and> modifiedIndex c < modifiedIndex d) lcs"
    using aligned_increasing[OF lcs(2)] by simp
  moreover obtain out where "render_diff ol ml lcs = Some out"
    using render_diff_aligned[OF lcs(2)] by blast
  ultimately show "\<exists>lcs out. longestCommonSubsequence ol ml = Some lcs \<and>
      list_all (\<lambda>c. 0 \<le> originalIndex c \<and> originalIndex c < int (length ol) \<and>
                    0 \<le> modifiedIndex c \<and> modifiedIndex c < int (length ml)) lcs \<and>
      sorted_wrt (\<lambda>c d. originalIndex c < originalIndex d \<and> modifiedIndex c < modifiedIndex d) lcs \<and>
      render_diff ol ml lcs = Some out"
    using lcs(1) by blast
next
  show "GenerateDiff input \<noteq> None"
  proof (cases input)
    case (Inl err)
    then show ?thesis by (simp add: GenerateDiff_def)
  next
    case (Inr inp)
    let ?ol = "strings_Split (OriginalCode inp)" and ?ml = "strings_Split (ModifiedCode inp)"
    obtain lcs where lcs: "longestCommonSubsequence ?ol ?ml = Some lcs" "aligned ?ol ?ml 0 0 lcs"
      using longestCommonSubsequence_aligned by blast
    obtain out where "render_diff ?ol ?ml lcs = Some out"
      using render_diff_aligned[OF lcs(2)] by blast
    with lcs(1) Inr show ?thesis by (simp add: GenerateDiff_def)
  qed
qed

theorem diff_walk_in_bounds_witness:
  "GenerateDiff (Inr \<lparr>OriginalCode = ''a'' @ newline @ ''b'', ModifiedCode = ''b'' @ newline @ ''c''\<rparr>) =
     Some (Inr (''Diff:'' @ newline @ format_line (Deleted ''a'') @ format_line (Unchanged ''b'') @
                format_line (Added ''c''))) \<and>
   ((\<exists>lcs out. longestCommonSubsequence [''a'', ''b''] [''b'', ''c''] = Some lcs \<and>
      list_all (\<lambda>c. 0 \<le> originalIndex c \<and> originalIndex c < int (length [''a'', ''b'']) \<and>
                    0 \<le> modifiedIndex c \<and> modifiedIndex c < int (length [''b'', ''c''])) lcs \<and>
      sorted_wrt (\<lambda>c d. originalIndex c < originalIndex d \<and> modifiedIndex c < modifiedIndex d) lcs \<and>
      render_diff [''a'', ''b''] [''b'', ''c''] lcs = Some out) \<and>
    GenerateDiff (Inr \<lparr>OriginalCode = ''a'' @ newline @ ''b'', ModifiedCode = ''b'' @ newline @ ''c''\<rparr>) \<noteq> None)"
proof (rule conjI)
  show "GenerateDiff (Inr \<lparr>OriginalCode = ''a'' @ newline @ ''b'', ModifiedCode = ''b'' @ newline @ ''c''\<rparr>) =
     Some (Inr (''Diff:'' @ newline @ format_line (Deleted ''a'') @ format_line (Unchanged ''b'') @
                format_line (Added ''c'')))"
    by code_simp
  show "(\<exists>lcs out. longestCommonSubsequence [''a'', ''b''] [''b'', ''c''] = Some lcs \<and>
      list_all (\<lambda>c. 0 \<le> originalIndex c \<and> originalIndex c < int (length [''a'', ''b'']) \<and>
                    0 \<le> modifiedIndex c \<and> modifiedIndex c < int (length [''b'', ''c''])) lcs \<and>
      sorted_wrt (\<lambda>c d. originalIndex c < originalIndex d \<and> modifiedIndex c < modifiedIndex d) lcs \<and>
      render_diff [''a'', ''b''] [''b'', ''c''] lcs = Some out) \<and>
    GenerateDiff (Inr \<lparr>OriginalCode = ''a'' @ newline @ ''b'', ModifiedCode = ''b'' @ newline @ ''c''\<rparr>) \<noteq> None"
    by (rule diff_walk_in_bounds)
qed

subsection \<open>The edit tool\<close>

text \<open>
  Claim C5, as amended. For every existing file (one that \<open>os.ReadFile\<close> reads; its
  path is not empty) and every non-empty search text that does not occur in the file's
  content, the edit tool fails and the file system is left as it was, no write being
  performed: with the error \<open>old_str not found in file\<close> when the replacement text
  differs from the search text, and with \<open>invalid input parameters\<close> when the two are
  identical (the guard at the head of \<open>EditFile\<close> rejects that request before the file
  is read).
\<close>

theorem edit_no_match:
  assumes "os_ReadFile os p fs = Inr content" and "p \<noteq> []" and "old \<noteq> []"
    and "\<not> sublist old content"
  shows "EditFile os (Inr \<lparr>Path = p, OldStr = old, NewStr = new\<rparr>) fs =
     Some (Inl (if old = new then ''invalid input parameters'' else ''old_str not found in file''), fs)"
  using assms by (simp add: EditFile_def strings_Replace_absent)

theorem edit_no_match_witness:
  "os_ReadFile mem_os ''f'' [(''f'', ''x'')] = Inr ''x'' \<and> ''f'' \<noteq> [] \<and> ''y'' \<noteq> [] \<and>
   \<not> sublist ''y'' ''x'' \<and>
   EditFile mem_os (Inr \<lparr>Path = ''f'', OldStr = ''y'', NewStr = ''z''\<rparr>) [(''f'', ''x'')] =
     Some (Inl ''old_str not found in file'', [(''f'', ''x'')])"
proof -
  have r: "os_ReadFile mem_os ''f'' [(''f'', ''x'')] = Inr ''x''" by (simp add: mem_os_def)
  have n: "\<not> sublist ''y'' ''x''" by (simp add: sublist_Cons_right)
  from edit_no_match[OF r _ _ n, where new = "''z''"] r n show ?thesis by simp
qed

text \<open>
  The claim as it was stated fails where the replacement text equals the search text:
  the file \<open>f\<close> holds \<open>x\<close>, the search text \<open>y\<close> does not occur in it, and the tool
  answers \<open>invalid input parameters\<close>, not \<open>old_str not found in file\<close>.
\<close>

theorem edit_no_match_counterexample:
  "os_ReadFile mem_os ''f'' [(''f'', ''x'')] = Inr ''x'' \<and> ''y'' \<noteq> [] \<and> \<not> sublist ''y'' ''x'' \<and>
   EditFile mem_os (Inr \<lparr>Path = ''f'', OldStr = ''y'', NewStr = ''y''\<rparr>) [(''f'', ''x'')] =
     Some (Inl ''invalid input parameters'', [(''f'', ''x'')]) \<and>
   EditFile mem_os (Inr \<lparr>Path = ''f'', OldStr = ''y'', NewStr = ''y''\<rparr>) [(''f'', ''x'')] \<noteq>
     Some (Inl ''old_str not found in file'', [(''f'', ''x'')])"
  by (simp add: mem_os_def EditFile_def sublist_Cons_right)

text \<open>
  Claim C6, as amended. For every existing file whose content contains the non-empty
  search text, and every replacement text that differs from the search text, the edit
  tool replaces every occurrence of the search text by the replacement text
  (\<open>strings.Replace\<close> with \<open>n = -1\<close>), reports success and persists the result,
  provided the system performs the write (it reports no error, and the file then reads as
  written); in particular \<open>foo foo\<close> with search \<open>foo\<close> and replacement \<open>bar\<close>
  gives \<open>bar bar\<close>. When the replacement text is identical to the search text the
  tool fails with \<open>invalid input parameters\<close> and writes nothing (the guard at the head
  of \<open>EditFile\<close>); the file keeps its content.
\<close>

theorem edit_replaces_every_occurrence:
  assumes "os_ReadFile os p fs = Inr content" and "p \<noteq> []" and "old \<noteq> []"
    and "sublist old content"
    and "os_WriteFile os p (strings_Replace content old new) mode_0644 fs = (None, fs')"
    and "os_ReadFile os p fs' = Inr (strings_Replace content old new)"
  shows "(\<exists>r fs''. EditFile os (Inr \<lparr>Path = p, OldStr = old, NewStr = new\<rparr>) fs = Some (r, fs'') \<and>
     os_ReadFile os p fs'' = Inr (strings_Replace content old new) \<and>
     (if old = new then r = Inl ''invalid input parameters'' \<and> fs'' = fs
      else fs'' = fs' \<and> (\<exists>summary. r = Inr summary))) \<and>
     strings_Replace ''foo foo'' ''foo'' ''bar'' = ''bar bar''"
proof
  show "\<exists>r fs''. EditFile os (Inr \<lparr>Path = p, OldStr = old, NewStr = new\<rparr>) fs = Some (r, fs'') \<and>
     os_ReadFile os p fs'' = Inr (strings_Replace content old new) \<and>
     (if old = new then r = Inl ''invalid input parameters'' \<and> fs'' = fs
      else fs'' = fs' \<and> (\<exists>summary. r = Inr summary))"
  proof (cases "old = new")
    case True
    with assms(1,2) show ?thesis by (simp add: EditFile_def strings_Replace_def)
  next
    case False
    let ?new = "strings_Replace content old new"
    have ch: "?new \<noteq> content" using strings_Replace_changes[OF assms(3) False assms(4)] .
    obtain lcs out where d: "longestCommonSubsequence (strings_Split content) (strings_Split ?new) = Some lcs"
        "render_diff (strings_Split content) (strings_Split ?new) lcs = Some out"
      using diff_never_panics by blast
    have "EditFile os (Inr \<lparr>Path = p, OldStr = old, NewStr = new\<rparr>) fs =
        Some (Inr (''File updated successfully.'' @ newline @ newline @
                   ''Changes to be applied:'' @ newline @ concat (map format_line out)), fs')"
      using assms(1,2,5) False ch d by (simp add: EditFile_def Let_def)
    with assms(6) False show ?thesis by simp
  qed
next
  show "strings_Replace ''foo foo'' ''foo'' ''bar'' = ''bar bar''" by code_simp
qed

theorem edit_replaces_every_occurrence_witness:
  "os_ReadFile mem_os ''f'' [(''f'', ''foo foo'')] = Inr ''foo foo'' \<and> sublist ''foo'' ''foo foo'' \<and>
   os_WriteFile mem_os ''f'' ''bar bar'' mode_0644 [(''f'', ''foo foo'')] = (None, [(''f'', ''bar bar'')]) \<and>
   (\<exists>summary. EditFile mem_os (Inr \<lparr>Path = ''f'', OldStr = ''foo'', NewStr = ''bar''\<rparr>) [(''f'', ''foo foo'')] =
      Some (Inr summary, [(''f'', ''bar bar'')])) \<and>
   os_ReadFile mem_os ''f'' [(''f'', ''bar bar'')] = Inr ''bar bar''"
proof -
  have r: "os_ReadFile mem_os ''f'' [(''f'', ''foo foo'')] = Inr ''foo foo''" by (simp add: mem_os_def)
  have s: "sublist ''foo'' ''foo foo''" by (simp add: sublist_Cons_right)
  have e: "strings_Replace ''foo foo'' ''foo'' ''bar'' = ''bar bar''" by code_simp
  have w: "os_WriteFile mem_os ''f'' (strings_Replace ''foo foo'' ''foo'' ''bar'') mode_0644 [(''f'', ''foo foo'')] =
      (None, [(''f'', ''bar bar'')])"
    unfolding e by (simp add: mem_os_def)
  have b: "os_ReadFile mem_os ''f'' [(''f'', ''bar bar'')] = Inr (strings_Replace ''foo foo'' ''foo'' ''bar'')"
    unfolding e by (simp add: mem_os_def)
  from edit_replaces_every_occurrence[OF r _ _ s w b] r s w b show ?thesis
    unfolding e by auto
qed

text \<open>
  The claim as it was stated fails where the replacement text equals the search text:
  the file \<open>f\<close> holds \<open>foo foo\<close>, the search text \<open>foo\<close> occurs in it, and with
  the replacement \<open>foo\<close> the tool answers \<open>invalid input parameters\<close> and performs no
  write.
\<close>

theorem edit_replaces_every_occurrence_counterexample:
  "os_ReadFile mem_os ''f'' [(''f'', ''foo foo'')] = Inr ''foo foo'' \<and> ''foo'' \<noteq> [] \<and>
   sublist ''foo'' ''foo foo'' \<and>
   EditFile mem_os (Inr \<lparr>Path = ''f'', OldStr = ''foo'', NewStr = ''foo''\<rparr>) [(''f'', ''foo foo'')] =
     Some (Inl ''invalid input parameters'', [(''f'', ''foo foo'')])"
  by (simp add: mem_os_def EditFile_def sublist_Cons_right)

text \<open>
  Claim C10. If the target file exists, the search text is empty and the replacement
  text is not, the edit tool does not fail (the write succeeding): the branch of the
  error \<open>old_str not found in file\<close> is skipped, and what is written is the replacement
  text before every character of the old content (every UTF-8 sequence, a stray byte
  counting as one) and once more at the end.
\<close>

theorem edit_empty_search_inserts:
  assumes "os_ReadFile os p fs = Inr content" and "p \<noteq> []" and "new \<noteq> []"
    and "os_WriteFile os p (concat (map ((@) new) (runes content)) @ new) mode_0644 fs = (None, fs')"
  shows "(\<exists>summary. EditFile os (Inr \<lparr>Path = p, OldStr = [], NewStr = new\<rparr>) fs = Some (Inr summary, fs')) \<and>
     strings_Replace content [] new = concat (map ((@) new) (runes content)) @ new \<and>
     concat (runes content) = content \<and> list_all (\<lambda>r. r \<noteq> []) (runes content)"
proof -
  let ?new = "strings_Replace content [] new"
  have e: "?new = concat (map ((@) new) (runes content)) @ new"
    using assms(3) by (simp add: strings_Replace_def replace_empty_runes)
  obtain lcs out where d: "longestCommonSubsequence (strings_Split content) (strings_Split ?new) = Some lcs"
      "render_diff (strings_Split content) (strings_Split ?new) lcs = Some out"
    using diff_never_panics by blast
  have "EditFile os (Inr \<lparr>Path = p, OldStr = [], NewStr = new\<rparr>) fs =
      Some (Inr (''File updated successfully.'' @ newline @ newline @
                 ''Changes to be applied:'' @ newline @ concat (map format_line out)), fs')"
    using assms d e by (simp add: EditFile_def Let_def)
  with e concat_runes runes_nonempty show ?thesis by blast
qed

theorem edit_empty_search_inserts_witness:
  "os_ReadFile mem_os ''f'' [(''f'', ''abc'')] = Inr ''abc'' \<and> runes ''abc'' = [''a'', ''b'', ''c''] \<and>
   os_WriteFile mem_os ''f'' ''XaXbXcX'' mode_0644 [(''f'', ''abc'')] = (None, [(''f'', ''XaXbXcX'')]) \<and>
   (\<exists>summary. EditFile mem_os (Inr \<lparr>Path = ''f'', OldStr = [], NewStr = ''X''\<rparr>) [(''f'', ''abc'')] =
      Some (Inr summary, [(''f'', ''XaXbXcX'')])) \<and>
   strings_Replace ''abc'' [] ''X'' = ''XaXbXcX''"
proof -
  have r: "os_ReadFile mem_os ''f'' [(''f'', ''abc'')] = Inr ''abc''" by (simp add: mem_os_def)
  have u: "runes ''abc'' = [''a'', ''b'', ''c'']" by code_simp
  have w: "os_WriteFile mem_os ''f'' (concat (map ((@) ''X'') (runes ''abc'')) @ ''X'') mode_0644 [(''f'', ''abc'')] =
      (None, [(''f'', ''XaXbXcX'')])"
    unfolding u by (simp add: mem_os_def)
  from edit_empty_search_inserts[OF r _ _ w] r w show ?thesis
    unfolding u by auto
qed

subsection \<open>The dispatcher\<close>

text \<open>
  Claim C4, as amended. For every tool name that is not in the registry, and every
  identifier and input payload, the result of the dispatch does not depend on the
  payload. In the single-file program it is the fixed string \<open>tool not found\<close> with the
  error flag set. In \<open>pkg/agent\<close> it is \<open>Error: Tool <name> not found\<close>, which names the
  tool, and the error flag is not set: that program marks no result as an error.
\<close>

theorem unregistered_tool_result:
  assumes "name \<notin> set (map Name (tools a))"
  shows "executeTool_original a uid name input w tr =
           Some (ToolResultBlock uid ''tool not found'' True, w, tr) \<and>
         executeTool a uid name input w =
           Some (ToolResultBlock uid (''Error: Tool '' @ name @ '' not found'') False, w)"
proof -
  from assms have "find (\<lambda>t. Name t = name) (tools a) = None"
    by (auto simp: find_None_iff)
  then show ?thesis by (simp add: executeTool_original_def executeTool_def)
qed

theorem unregistered_tool_result_witness:
  "''nope'' \<notin> set (map Name (tools demo_agent)) \<and>
   executeTool_original demo_agent ''t2'' ''nope'' ''{}'' () [] =
     Some (ToolResultBlock ''t2'' ''tool not found'' True, (), []) \<and>
   executeTool demo_agent ''t2'' ''nope'' ''{}'' () =
     Some (ToolResultBlock ''t2'' ''Error: Tool nope not found'' False, ())"
proof -
  have n: "''nope'' \<notin> set (map Name (tools demo_agent))" by (simp add: demo_agent_def)
  from unregistered_tool_result[OF n, of "''t2''" "''{}''" "()" "[]"] n show ?thesis by simp
qed

text \<open>
  The claim as it was stated fails in \<open>pkg/agent\<close>: two tools that are not registered
  get two different strings, and the error flag of both results is false.
\<close>

theorem unregistered_tool_result_counterexample:
  "''nope'' \<notin> set (map Name (tools demo_agent)) \<and> ''other'' \<notin> set (map Name (tools demo_agent)) \<and>
   executeTool demo_agent ''t2'' ''nope'' ''{}'' () =
     Some (ToolResultBlock ''t2'' ''Error: Tool nope not found'' False, ()) \<and>
   executeTool demo_agent ''t2'' ''other'' ''{}'' () =
     Some (ToolResultBlock ''t2'' ''Error: Tool other not found'' False, ())"
  by (simp add: demo_agent_def executeTool_def)

subsection \<open>The agent loop\<close>




text \<open>
  Claim C7, as amended. In every state that a run of the single-file program reaches (at
  the head of the loop after any number of passes, at the return of \<open>Run\<close>, at a panic)
  no two consecutive messages of the conversation have the same role. In \<open>pkg/agent\<close>
  the conversation starts with the instruction message, of role user, which the first
  message of the user follows; from the second message on, no two consecutive messages
  have the same role.
\<close>

theorem roles_alternate:
  "alternating (final_conversation (Run_original n a input w)) \<and>
   alternating (tl (final_conversation (Run n' a' input' w')))"
proof
  have "loop_inv_original \<lparr>conversation = [], stdin = input, world = w,
        trace = [Print (''Chat with Claude (use 'ctrl-c' to quit)'' @ newline)],
        readUserInput = True\<rparr>"
    by (simp add: loop_inv_original_def alternating_def)
  then show "alternating (final_conversation (Run_original n a input w))"
    unfolding Run_original_def
    by (rule iterate_invariant[where I = loop_inv_original and Q = alternating, rotated])
       (simp_all add: Run_body_original_inv loop_inv_original_def)
next
  have "loop_inv \<lparr>conversation = initial_conversation, stdin = input', world = w',
        trace = [Print (''doChat with Claude (use 'ctrl-c' to quit)'' @ newline)]\<rparr>"
    by (simp add: loop_inv_def initial_conversation_def alternating_def)
  then show "alternating (tl (final_conversation (Run n' a' input' w')))"
    unfolding Run_def
    by (rule iterate_invariant[where I = loop_inv and Q = "\<lambda>conv. alternating (tl conv)", rotated])
       (simp_all add: Run_body_inv loop_inv_def)
qed

theorem roles_alternate_witness:
  "map Role (final_conversation (Run_original 2 demo_agent [''hi''] ())) = [User, Assistant, User, Assistant] \<and>
   map Role (final_conversation (Run 2 demo_agent [''hi''] ())) = [User, User, Assistant] \<and>
   alternating (final_conversation (Run_original 2 demo_agent [''hi''] ())) \<and>
   alternating (tl (final_conversation (Run 2 demo_agent [''hi''] ())))"
proof -
  have o: "map Role (final_conversation (Run_original 2 demo_agent [''hi''] ())) = [User, Assistant, User, Assistant]"
    by code_simp
  have p: "map Role (final_conversation (Run 2 demo_agent [''hi''] ())) = [User, User, Assistant]"
    by code_simp
  from roles_alternate[of 2 demo_agent "[''hi'']" "()" 2 demo_agent "[''hi'']" "()"] o p
  show ?thesis by simp
qed

text \<open>
  The claim as it was stated fails for \<open>pkg/agent\<close>: after the first pass the
  conversation holds two user messages in a row.
\<close>

theorem roles_alternate_counterexample:
  "map Role (final_conversation (Run 1 demo_agent [''hi''] ())) = [User, User, Assistant] \<and>
   \<not> alternating (final_conversation (Run 1 demo_agent [''hi''] ()))"
  by code_simp

text \<open>
  Claim C8, as amended. In \<open>pkg/agent\<close>, within one pass (an answer without error, no
  tool panicking) every tool use of the answer is dispatched, in block order, before any
  text of the answer is printed: \<open>runInference\<close> runs the tools and only then \<open>Run\<close>
  prints, as the last action of the pass, one line \<open>Claude: ...\<close> made of the blocks in
  block order, the text of a text block and \<open>result: ...\<close> for a tool result. In the
  single-file program the blocks are handled in block order, a text printed and a tool
  use dispatched when it is reached: a text block is printed after the dispatch of the
  tool uses before it and before the dispatch of the tool uses after it.
\<close>

theorem text_and_dispatch_order:
  "(stdin s = userMsg # rest \<and>
    client b (conversation s @ [user_text userMsg]) = (ticks, Some content, None) \<and>
    \<not> panicked (Run_body b s) \<longrightarrow>
    (\<exists>s' resolved_content. Run_body b s = Continue s' \<and>
       list_all2 resolved content resolved_content \<and>
       trace s' =
         trace s @ [Print ''You: '', GetUserMessage, MessagesNew (conversation s @ [user_text userMsg])] @
         replicate ticks Progress @ tool_events content @
         [Print clear_line, Print (''Claude: '' @ concat (map block_text resolved_content) @ newline)] \<and>
       filter is_dispatch (tool_events content) = dispatches content \<and>
       formatResponse resolved_content = concat (map block_text resolved_content))) \<and>
   (client a (conversation t) = (ticks', Some (pre @ TextBlock txt # post), None) \<and>
    \<not> panicked (inference_turn a t) \<longrightarrow>
    (\<exists>t' evs1 evs2. inference_turn a t = Continue t' \<and>
       trace t' = trace t @ [MessagesNew (conversation t)] @ replicate ticks' Progress @
                  [Print clear_line] @ evs1 @ [claude_line txt] @ evs2 \<and>
       filter is_dispatch evs1 = dispatches pre \<and> filter is_dispatch evs2 = dispatches post))"
proof (intro conjI impI)
  assume h: "stdin s = userMsg # rest \<and>
    client b (conversation s @ [user_text userMsg]) = (ticks, Some content, None) \<and>
    \<not> panicked (Run_body b s)"
  then have h1: "stdin s = userMsg # rest"
    and h2: "client b (conversation s @ [user_text userMsg]) = (ticks, Some content, None)"
    and h3: "\<not> panicked (Run_body b s)"
    by simp_all
  from Run_body_turn[OF h1 h2 h3] obtain rc w' where
    r: "list_all2 resolved content rc" and
    e: "Run_body b s = Continue
       \<lparr>conversation = conversation s @ [user_text userMsg, \<lparr>Role = Assistant, Content = rc\<rparr>],
        stdin = rest, world = w',
        trace = trace s @ [Print ''You: '', GetUserMessage, MessagesNew (conversation s @ [user_text userMsg])] @
                replicate ticks Progress @ tool_events content @
                [Print clear_line, Print (''Claude: '' @ formatResponse rc @ newline)]\<rparr>"
    by blast
  let ?s' = "\<lparr>conversation = conversation s @ [user_text userMsg, \<lparr>Role = Assistant, Content = rc\<rparr>],
        stdin = rest, world = w',
        trace = trace s @ [Print ''You: '', GetUserMessage, MessagesNew (conversation s @ [user_text userMsg])] @
                replicate ticks Progress @ tool_events content @
                [Print clear_line, Print (''Claude: '' @ formatResponse rc @ newline)]\<rparr>"
  have "Run_body b s = Continue ?s' \<and> list_all2 resolved content rc \<and>
     trace ?s' =
       trace s @ [Print ''You: '', GetUserMessage, MessagesNew (conversation s @ [user_text userMsg])] @
       replicate ticks Progress @ tool_events content @
       [Print clear_line, Print (''Claude: '' @ concat (map block_text rc) @ newline)] \<and>
     filter is_dispatch (tool_events content) = dispatches content \<and>
     formatResponse rc = concat (map block_text rc)"
    using e r by (simp add: tool_events_dispatches formatResponse_block_text)
  then show "\<exists>s' resolved_content. Run_body b s = Continue s' \<and>
       list_all2 resolved content resolved_content \<and>
       trace s' =
         trace s @ [Print ''You: '', GetUserMessage, MessagesNew (conversation s @ [user_text userMsg])] @
         replicate ticks Progress @ tool_events content @
         [Print clear_line, Print (''Claude: '' @ concat (map block_text resolved_content) @ newline)] \<and>
       filter is_dispatch (tool_events content) = dispatches content \<and>
       formatResponse resolved_content = concat (map block_text resolved_content)"
    by blast
next
  assume h: "client a (conversation t) = (ticks', Some (pre @ TextBlock txt # post), None) \<and>
    \<not> panicked (inference_turn a t)"
  then have h1: "client a (conversation t) = (ticks', Some (pre @ TextBlock txt # post), None)"
    and h2: "\<not> panicked (inference_turn a t)"
    by simp_all
  from inference_turn_text[OF h1 h2]
  show "\<exists>t' evs1 evs2. inference_turn a t = Continue t' \<and>
       trace t' = trace t @ [MessagesNew (conversation t)] @ replicate ticks' Progress @
                  [Print clear_line] @ evs1 @ [claude_line txt] @ evs2 \<and>
       filter is_dispatch evs1 = dispatches pre \<and> filter is_dispatch evs2 = dispatches post" .
qed

theorem text_and_dispatch_order_witness:
  "stdin demo_state = ''hi'' # [] \<and>
   client demo_agent (conversation demo_state @ [user_text ''hi'']) =
     (1, Some [TextBlock ''hello'', ToolUseBlock ''t1'' ''echo'' ''{}'', ToolUseBlock ''t2'' ''nope'' ''{}''], None) \<and>
   \<not> panicked (Run_body demo_agent demo_state) \<and>
   (\<exists>s' resolved_content. Run_body demo_agent demo_state = Continue s' \<and>
     list_all2 resolved [TextBlock ''hello'', ToolUseBlock ''t1'' ''echo'' ''{}'', ToolUseBlock ''t2'' ''nope'' ''{}''] resolved_content \<and>
     trace s' =
       trace demo_state @ [Print ''You: '', GetUserMessage, MessagesNew (conversation demo_state @ [user_text ''hi''])] @
       replicate 1 Progress @
       tool_events [TextBlock ''hello'', ToolUseBlock ''t1'' ''echo'' ''{}'', ToolUseBlock ''t2'' ''nope'' ''{}''] @
       [Print clear_line, Print (''Claude: '' @ concat (map block_text resolved_content) @ newline)] \<and>
     filter is_dispatch (tool_events [TextBlock ''hello'', ToolUseBlock ''t1'' ''echo'' ''{}'', ToolUseBlock ''t2'' ''nope'' ''{}'']) =
       dispatches [TextBlock ''hello'', ToolUseBlock ''t1'' ''echo'' ''{}'', ToolUseBlock ''t2'' ''nope'' ''{}''] \<and>
     formatResponse resolved_content = concat (map block_text resolved_content)) \<and>
   client demo_agent (conversation demo_state_original) =
     (1, Some ([] @ TextBlock ''hello'' # [ToolUseBlock ''t1'' ''echo'' ''{}'', ToolUseBlock ''t2'' ''nope'' ''{}'']), None) \<and>
   \<not> panicked (inference_turn demo_agent demo_state_original) \<and>
   (\<exists>t' evs1 evs2. inference_turn demo_agent demo_state_original = Continue t' \<and>
       trace t' = trace demo_state_original @ [MessagesNew (conversation demo_state_original)] @
                  replicate 1 Progress @ [Print clear_line] @ evs1 @ [claude_line ''hello''] @ evs2 \<and>
       filter is_dispatch evs1 = dispatches [] \<and>
       filter is_dispatch evs2 = dispatches [ToolUseBlock ''t1'' ''echo'' ''{}'', ToolUseBlock ''t2'' ''nope'' ''{}''])"
proof -
  have h1: "stdin demo_state = ''hi'' # []" by (simp add: demo_state_def)
  have h2: "client demo_agent (conversation demo_state @ [user_text ''hi'']) =
     (1, Some [TextBlock ''hello'', ToolUseBlock ''t1'' ''echo'' ''{}'', ToolUseBlock ''t2'' ''nope'' ''{}''], None)"
    by (simp add: demo_agent_def demo_state_def initial_conversation_def)
  have h3: "\<not> panicked (Run_body demo_agent demo_state)" by code_simp
  have o1: "client demo_agent (conversation demo_state_original) =
     (1, Some ([] @ TextBlock ''hello'' # [ToolUseBlock ''t1'' ''echo'' ''{}'', ToolUseBlock ''t2'' ''nope'' ''{}'']), None)"
    by (simp add: demo_agent_def demo_state_original_def)
  have o3: "\<not> panicked (inference_turn demo_agent demo_state_original)" by code_simp
  note inst = text_and_dispatch_order[of demo_state "''hi''" "[]" demo_agent 1
      "[TextBlock ''hello'', ToolUseBlock ''t1'' ''echo'' ''{}'', ToolUseBlock ''t2'' ''nope'' ''{}'']"
      demo_agent demo_state_original 1 "[]" "''hello''"
      "[ToolUseBlock ''t1'' ''echo'' ''{}'', ToolUseBlock ''t2'' ''nope'' ''{}'']"]
  from inst h1 h2 h3 o1 o3 show ?thesis by blast
qed

text \<open>
  The claim as it was stated fails for \<open>pkg/agent\<close>: the answer starts with the text
  \<open>hello\<close>, and both tools are dispatched before it is printed. Up to the first
  dispatch the pass has printed the prompt only.
\<close>

theorem text_and_dispatch_order_counterexample:
  "final_trace (Run_body demo_agent demo_state) =
     [Print ''You: '', GetUserMessage, MessagesNew (initial_conversation @ [user_text ''hi'']), Progress,
      ExecuteTool ''t1'' ''echo'' ''{}'', Print (''tool: echo({})'' @ newline),
      ExecuteTool ''t2'' ''nope'' ''{}'', Print (''tool: nope({})'' @ newline),
      Print clear_line,
      Print (''Claude: hello'' @ ''result: {}'' @ newline @ ''result: Error: Tool nope not found'' @ newline @ newline)] \<and>
   takeWhile (\<lambda>e. \<not> is_dispatch e) (final_trace (Run_body demo_agent demo_state)) =
     [Print ''You: '', GetUserMessage, MessagesNew (initial_conversation @ [user_text ''hi'']), Progress]"
  by code_simp

end
